theory Spec2Isabelle
  imports Main "HOL-Library.Word"
begin

unbundle bit_operations_syntax

section \<open>Power manager of ProffieOSx (src/common/PowerManager.h)\<close>

text \<open>
  The embedding follows \<^verbatim>\<open>PowerManager.h\<close>, built for the STM32L4 board without
  \<^verbatim>\<open>ULTRAPROFFIE_CHARGER\<close> and without the \<^verbatim>\<open>ULTRAPROFFIE_VERSION == 'L'\<close> block of
  \<^verbatim>\<open>Loop\<close>. Linked lists are HOL lists in traversal order (head of the list first).
  Virtual methods of a domain or subscriber object are fields of its record. Terminal
  output is not modelled. The calls that leave the power manager (\<^verbatim>\<open>SetPower\<close>, the
  subscriber callbacks, the entry into STOP mode) are appended to a trace, oldest first.
\<close>

subsection \<open>Constants and types\<close>

type_synonym PDType_base = "8 word"
type_synonym uint32_t = "32 word"

definition PWRMAN_TIMEOUTRES :: uint32_t where "PWRMAN_TIMEOUTRES = 10000"
definition PWRMAN_MINTIMEOUT :: uint32_t where "PWRMAN_MINTIMEOUT = 20"
definition PWRMAN_DEFTIMEOUT :: uint32_t where "PWRMAN_DEFTIMEOUT = 1000"
definition PWRMAN_AMPTIMEOUT :: uint32_t where "PWRMAN_AMPTIMEOUT = 50"
definition PWRMAN_CPUTIMEOUT :: uint32_t where "PWRMAN_CPUTIMEOUT = 60000"

datatype PDType =
  pwr4_none | pwr4_CPU | pwr4_SD | pwr4_Booster | pwr4_Amplif | pwr4_Pixel | pwr4_Charger

text \<open>The enumerator values of \<^verbatim>\<open>enum PDType : uint8_t\<close>.\<close>

fun PDType_val :: "PDType \<Rightarrow> PDType_base" where
  "PDType_val pwr4_none = 0"
| "PDType_val pwr4_CPU = 1"
| "PDType_val pwr4_SD = 2"
| "PDType_val pwr4_Booster = 4"
| "PDType_val pwr4_Amplif = 8"
| "PDType_val pwr4_Pixel = 16"
| "PDType_val pwr4_Charger = 32"

definition PWRMAN_STARTON :: PDType_base where
  "PWRMAN_STARTON = PDType_val pwr4_CPU"

datatype WKSource = wakeUp_none | wakeUp_button | wakeUp_serial

text \<open>The interrupt that ends a stop period: the button EXTI line or the serial RX line.\<close>

datatype interrupt = IRQ_BTN | IRQ_SER

datatype event =
  Call_SetPower PDType bool
| Call_PwrOn string
| Call_PwrOff string
| Enter_DeepSleep
| Wait_For_Interrupt WKSource

text \<open>
  A \<^verbatim>\<open>PowerDomain\<close> object. \<open>pd_id\<close>, \<open>pd_name\<close> and \<open>pd_timeout\<close> are what the virtual
  \<^verbatim>\<open>id()\<close>, \<^verbatim>\<open>name()\<close> and \<^verbatim>\<open>timeout()\<close> return. \<open>actuator\<close> is the state the rail was
  last commanded to by \<^verbatim>\<open>SetPower\<close>, \<open>None\<close> while no command has been issued.
\<close>

record PowerDomain =
  pd_id :: PDType
  pd_name :: string
  pd_timeout :: uint32_t
  countdownTimer :: uint32_t
  actuator :: "bool option"

text \<open>
  A \<^verbatim>\<open>PowerSubscriber\<close> object; \<open>HoldPower\<close> is what its virtual \<^verbatim>\<open>HoldPower()\<close>
  currently answers.
\<close>

record PowerSubscriber =
  ps_name :: string
  subscribedDomains :: PDType_base
  HoldPower :: bool

record PowerManager =
  domains :: "PowerDomain list"
  subscribers :: "PowerSubscriber list"
  wakeUpSource :: WKSource
  powerState :: PDType_base
  lastLoopTime :: uint32_t
  trace :: "event list"

subsection \<open>Domain timer\<close>

definition ResetTimeout :: "PowerDomain \<Rightarrow> uint32_t \<Rightarrow> PowerDomain" where
  "ResetTimeout pd tmo =
     (let t1 = (if tmo = 0 then pd_timeout pd else tmo);
          t2 = (if t1 < PWRMAN_MINTIMEOUT then PWRMAN_MINTIMEOUT else t1)
      in if countdownTimer pd < t2 then pd\<lparr>countdownTimer := t2\<rparr> else pd)"

definition CheckTimeout :: "PowerDomain \<Rightarrow> uint32_t \<Rightarrow> PowerDomain \<times> bool" where
  "CheckTimeout pd loopTime =
     (if countdownTimer pd = 0 then (pd, False)
      else if countdownTimer pd \<le> loopTime then (pd\<lparr>countdownTimer := 0\<rparr>, True)
      else (pd\<lparr>countdownTimer := countdownTimer pd - loopTime\<rparr>, False))"

text \<open>
  The clamp of the specification, in its words: the domain's default timeout stands in
  for a zero argument, and a value below the minimum floor is raised to the floor.
\<close>

definition clamp_spec :: "PowerDomain \<Rightarrow> uint32_t \<Rightarrow> uint32_t" where
  "clamp_spec pd t = max PWRMAN_MINTIMEOUT (if t = 0 then pd_timeout pd else t)"

text \<open>Successive calls of \<^verbatim>\<open>CheckTimeout\<close> on one domain, with what each call returns.\<close>

fun CheckTimeout_run :: "PowerDomain \<Rightarrow> uint32_t list \<Rightarrow> PowerDomain \<times> bool list" where
  "CheckTimeout_run pd [] = (pd, [])"
| "CheckTimeout_run pd (e # es) =
     (case CheckTimeout pd e of (pd', r) \<Rightarrow>
        (case CheckTimeout_run pd' es of (pd'', rs) \<Rightarrow> (pd'', r # rs)))"

subsection \<open>Registration\<close>

text \<open>
  The global \<^verbatim>\<open>powerman\<close> object after its constructor; \<^verbatim>\<open>subscribers\<close> and
  \<^verbatim>\<open>wakeUpSource\<close> are zero-initialised statics.
\<close>

definition PowerManager_ctor :: PowerManager where
  "PowerManager_ctor =
     \<lparr>domains = [], subscribers = [], wakeUpSource = wakeUp_none, powerState = 0,
      lastLoopTime = 0, trace = []\<rparr>"

text \<open>The \<^verbatim>\<open>PowerDomain\<close> constructor links the new object in front of the list.\<close>

definition PowerDomain_ctor :: "PowerDomain \<Rightarrow> PowerManager \<Rightarrow> PowerManager" where
  "PowerDomain_ctor pd s =
     s\<lparr>domains := pd\<lparr>countdownTimer := 0, actuator := None\<rparr> # domains s\<rparr>"

definition PowerSubscriber_ctor :: "PowerSubscriber \<Rightarrow> PowerManager \<Rightarrow> PowerManager" where
  "PowerSubscriber_ctor ps s =
     (if subscribedDomains ps = 0 then s else s\<lparr>subscribers := ps # subscribers s\<rparr>)"

text \<open>The five domain objects of the header, in the order they are defined.\<close>

definition pwrdom_pixel :: PowerDomain where
  "pwrdom_pixel = \<lparr>pd_id = pwr4_Pixel, pd_name = ''PIX'', pd_timeout = PWRMAN_DEFTIMEOUT,
     countdownTimer = 0, actuator = None\<rparr>"

definition pwrdom_amp :: PowerDomain where
  "pwrdom_amp = \<lparr>pd_id = pwr4_Amplif, pd_name = ''AMP'', pd_timeout = PWRMAN_AMPTIMEOUT,
     countdownTimer = 0, actuator = None\<rparr>"

definition pwrdom_boost :: PowerDomain where
  "pwrdom_boost = \<lparr>pd_id = pwr4_Booster, pd_name = ''BST'', pd_timeout = PWRMAN_DEFTIMEOUT,
     countdownTimer = 0, actuator = None\<rparr>"

definition pwrdom_sd :: PowerDomain where
  "pwrdom_sd = \<lparr>pd_id = pwr4_SD, pd_name = ''SD'', pd_timeout = PWRMAN_DEFTIMEOUT,
     countdownTimer = 0, actuator = None\<rparr>"

definition pwrdom_cpu :: PowerDomain where
  "pwrdom_cpu = \<lparr>pd_id = pwr4_CPU, pd_name = ''CPU'', pd_timeout = PWRMAN_CPUTIMEOUT,
     countdownTimer = 0, actuator = None\<rparr>"

definition powerman_static :: PowerManager where
  "powerman_static =
     fold PowerDomain_ctor [pwrdom_pixel, pwrdom_amp, pwrdom_boost, pwrdom_sd, pwrdom_cpu]
       PowerManager_ctor"

subsection \<open>Calls that leave the power manager\<close>

definition SetPower :: "PowerDomain \<Rightarrow> bool \<Rightarrow> event list \<Rightarrow> PowerDomain \<times> event list" where
  "SetPower pd newState tr =
     (pd\<lparr>actuator := Some newState\<rparr>, tr @ [Call_SetPower (pd_id pd) newState])"

definition PwrOn_Callback :: "PowerSubscriber \<Rightarrow> event list \<Rightarrow> event list" where
  "PwrOn_Callback ps tr = tr @ [Call_PwrOn (ps_name ps)]"

definition PwrOff_Callback :: "PowerSubscriber \<Rightarrow> event list \<Rightarrow> event list" where
  "PwrOff_Callback ps tr = tr @ [Call_PwrOff (ps_name ps)]"

text \<open>\<^verbatim>\<open>IsOn()\<close> of a subscriber, against the live power state.\<close>

definition IsOn :: "PDType_base \<Rightarrow> PowerSubscriber \<Rightarrow> bool" where
  "IsOn st ps = (st AND subscribedDomains ps = subscribedDomains ps)"

text \<open>
  \<^verbatim>\<open>for (PowerDomain *pd = domains; pd; pd = pd->next) body\<close>: the body may change the
  object it visits and the variables \<open>acc\<close> it shares with the rest of the function.
\<close>

fun for_domains ::
  "(PowerDomain \<Rightarrow> 'a \<Rightarrow> PowerDomain \<times> 'a) \<Rightarrow> PowerDomain list \<Rightarrow> 'a \<Rightarrow> PowerDomain list \<times> 'a"
where
  "for_domains body [] acc = ([], acc)"
| "for_domains body (pd # pds) acc =
     (case body pd acc of (pd', acc') \<Rightarrow>
        (case for_domains body pds acc' of (pds', acc'') \<Rightarrow> (pd' # pds', acc'')))"

subsection \<open>Sleep transition\<close>

text \<open>
  \<^verbatim>\<open>CPU_DeepSleep\<close> up to the wait instruction: the wake source is reset, pins are saved
  and defaulted, the wake interrupts armed (pins and registers are not modelled).
\<close>

definition CPU_DeepSleep_entry :: "PowerManager \<Rightarrow> PowerManager" where
  "CPU_DeepSleep_entry s = s\<lparr>wakeUpSource := wakeUp_none, trace := trace s @ [Enter_DeepSleep]\<rparr>"

text \<open>
  The wait instruction \<^verbatim>\<open>__WFI()\<close>: the processor stops. The event records the value
  that \<^verbatim>\<open>wakeUpSource\<close> has while the processor is stopped, which is what the interrupt
  service routines find.
\<close>

definition CPU_DeepSleep_wait :: "PowerManager \<Rightarrow> PowerManager" where
  "CPU_DeepSleep_wait s = s\<lparr>trace := trace s @ [Wait_For_Interrupt (wakeUpSource s)]\<rparr>"

definition pwrWakeUp_BTN :: "PowerManager \<Rightarrow> PowerManager" where
  "pwrWakeUp_BTN s = s\<lparr>wakeUpSource := wakeUp_button\<rparr>"

definition pwrWakeUp_SER :: "PowerManager \<Rightarrow> PowerManager" where
  "pwrWakeUp_SER s = s\<lparr>wakeUpSource := wakeUp_serial\<rparr>"

text \<open>
  The whole call: the processor stops until the interrupt \<open>irq\<close> runs its service
  routine, then clocks and pins are restored.
\<close>

definition CPU_DeepSleep :: "PowerManager \<Rightarrow> interrupt \<Rightarrow> PowerManager" where
  "CPU_DeepSleep s irq =
     (case irq of
        IRQ_BTN \<Rightarrow> pwrWakeUp_BTN (CPU_DeepSleep_wait (CPU_DeepSleep_entry s))
      | IRQ_SER \<Rightarrow> pwrWakeUp_SER (CPU_DeepSleep_wait (CPU_DeepSleep_entry s)))"

subsection \<open>Activation\<close>

definition Activate_body ::
  "PDType_base \<Rightarrow> PowerDomain \<Rightarrow> PDType_base \<times> event list \<times> bool \<Rightarrow>
   PowerDomain \<times> PDType_base \<times> event list \<times> bool"
where
  "Activate_body startUpDomains pd acc =
     (case acc of (st, tr, retVal) \<Rightarrow>
        if PDType_val (pd_id pd) AND startUpDomains \<noteq> 0 \<and> \<not> (PDType_val (pd_id pd) AND st \<noteq> 0)
        then (case SetPower (ResetTimeout pd 0) True tr of
                (pd', tr') \<Rightarrow> (pd', st OR PDType_val (pd_id pd), tr', True))
        else (pd, acc))"

definition Activate :: "PowerManager \<Rightarrow> PDType_base \<Rightarrow> bool \<times> PowerManager" where
  "Activate s startUpDomains =
     (if domains s = [] then (False, s)
      else case for_domains (Activate_body startUpDomains) (domains s)
                  (powerState s, trace s, False) of
        (pds, st, tr, retVal) \<Rightarrow>
          if subscribers s = [] \<or> \<not> retVal
          then (retVal, s\<lparr>domains := pds, powerState := st, trace := tr\<rparr>)
          else (retVal, s\<lparr>domains := pds, powerState := st,
                  trace := foldl (\<lambda>tr ps. if IsOn st ps then PwrOn_Callback ps tr else tr)
                             tr (subscribers s)\<rparr>))"

definition Setup :: "PowerManager \<Rightarrow> PowerManager" where
  "Setup s = snd (Activate s PWRMAN_STARTON)"

subsection \<open>Power request of a subscriber\<close>

text \<open>
  The argument \<^verbatim>\<open>timeout_\<close> is \<open>None\<close> for the null pointer and \<open>Some ts\<close> for a pointer
  to the vector \<open>ts\<close>; \<^verbatim>\<open>*timeout_++\<close> takes the head. Reading past the end of the
  caller's vector is undefined in C++ and is the result \<open>None\<close> here.
\<close>

fun RequestPower_domains ::
  "PDType_base \<Rightarrow> uint32_t list option \<Rightarrow> PowerDomain list \<Rightarrow> PDType_base \<Rightarrow> event list \<Rightarrow> bool \<Rightarrow>
   (PowerDomain list \<times> PDType_base \<times> event list \<times> bool) option"
where
  "RequestPower_domains sub tmo [] st tr retVal = Some ([], st, tr, retVal)"
| "RequestPower_domains sub tmo (pd # pds) st tr retVal =
     (if PDType_val (pd_id pd) AND sub \<noteq> 0 then
        (case (case tmo of
                 None \<Rightarrow> Some (ResetTimeout pd 0, None)
               | Some [] \<Rightarrow> None
               | Some (t # ts) \<Rightarrow> Some (ResetTimeout pd t, Some ts)) of
           None \<Rightarrow> None
         | Some (pd1, tmo1) \<Rightarrow>
             if \<not> (st AND PDType_val (pd_id pd) \<noteq> 0) then
               (case SetPower pd1 True tr of (pd2, tr2) \<Rightarrow>
                  (case RequestPower_domains sub tmo1 pds (st OR PDType_val (pd_id pd)) tr2 True of
                     None \<Rightarrow> None
                   | Some (pds', r) \<Rightarrow> Some (pd2 # pds', r)))
             else
               (case RequestPower_domains sub tmo1 pds st tr retVal of
                  None \<Rightarrow> None
                | Some (pds', r) \<Rightarrow> Some (pd1 # pds', r)))
      else
        (case RequestPower_domains sub tmo pds st tr retVal of
           None \<Rightarrow> None
         | Some (pds', r) \<Rightarrow> Some (pd # pds', r)))"

definition RequestPower ::
  "PowerManager \<Rightarrow> PowerSubscriber \<Rightarrow> uint32_t list option \<Rightarrow> (bool \<times> PowerManager) option"
where
  "RequestPower s ps tmo =
     (if domains s = [] then Some (False, s)
      else case RequestPower_domains (subscribedDomains ps) tmo (domains s)
                  (powerState s) (trace s) False of
        None \<Rightarrow> None
      | Some (pds, st, tr, retVal) \<Rightarrow>
          Some (retVal, s\<lparr>domains := pds, powerState := st,
                          trace := (if retVal then PwrOn_Callback ps tr else tr)\<rparr>))"

subsection \<open>Arbitration loop\<close>

text \<open>Step 1: the domains on hold, before the mask is inverted.\<close>

definition heldDomains :: "PowerSubscriber list \<Rightarrow> PDType_base" where
  "heldDomains subs =
     foldl (\<lambda>acc ps. if HoldPower ps then acc OR subscribedDomains ps else acc) 0 subs"

text \<open>Step 2: the body of the loop that checks timeouts and marks the next state.\<close>

definition Loop_check_body ::
  "PDType_base \<Rightarrow> PDType_base \<Rightarrow> uint32_t \<Rightarrow> PowerDomain \<Rightarrow> PDType_base \<Rightarrow> PowerDomain \<times> PDType_base"
where
  "Loop_check_body st domainsToCheck loopTime pd nextPowerState =
     (if PDType_val (pd_id pd) AND st AND domainsToCheck \<noteq> 0 then
        (case CheckTimeout pd loopTime of
           (pd', expired) \<Rightarrow>
             if expired then (pd', nextPowerState AND NOT (PDType_val (pd_id pd)))
             else (pd', nextPowerState))
      else (pd, nextPowerState))"

text \<open>Step 3: the off callbacks, for the live state \<open>st\<close> and the marked next state.\<close>

definition Loop_callbacks ::
  "PDType_base \<Rightarrow> PDType_base \<Rightarrow> PowerSubscriber list \<Rightarrow> event list \<Rightarrow> event list"
where
  "Loop_callbacks st nextPowerState subs tr =
     foldl (\<lambda>tr ps.
              if subscribedDomains ps AND st = subscribedDomains ps then
                (if subscribedDomains ps AND nextPowerState \<noteq> subscribedDomains ps
                 then PwrOff_Callback ps tr else tr)
              else tr) tr subs"

text \<open>Step 4: the body of the loop that turns the marked domains off.\<close>

definition Loop_off_body ::
  "PDType_base \<Rightarrow> PowerDomain \<Rightarrow> PDType_base \<times> event list \<Rightarrow> PowerDomain \<times> PDType_base \<times> event list"
where
  "Loop_off_body nextPowerState pd acc =
     (case acc of (st, tr) \<Rightarrow>
        if PDType_val (pd_id pd) AND st \<noteq> 0 \<and> PDType_val (pd_id pd) AND NOT nextPowerState \<noteq> 0
        then (case SetPower pd False tr of (pd', tr') \<Rightarrow>
                (pd', st AND NOT (PDType_val (pd_id pd)), tr'))
        else (pd, acc))"

text \<open>
  One call of \<^verbatim>\<open>Loop()\<close>: \<open>timeNow\<close> is what \<^verbatim>\<open>millis()\<close> returns, \<open>irq\<close> the interrupt
  that ends the stop period if this call enters it.
\<close>

definition Loop :: "PowerManager \<Rightarrow> uint32_t \<Rightarrow> interrupt \<Rightarrow> PowerManager" where
  "Loop s timeNow irq =
     (if domains s = [] then s
      else
        let loopTime = timeNow - lastLoopTime s;
            s0 = s\<lparr>lastLoopTime := timeNow\<rparr>
        in
        if PWRMAN_MINTIMEOUT \<le> loopTime then s0
        else
          let domainsToCheck = NOT (heldDomains (subscribers s0)) in
          case for_domains (Loop_check_body (powerState s0) domainsToCheck loopTime)
                 (domains s0) (powerState s0) of
            (pds, nextPowerState) \<Rightarrow>
              if nextPowerState = powerState s0 then s0\<lparr>domains := pds\<rparr>
              else
                let tr = Loop_callbacks (powerState s0) nextPowerState (subscribers s0) (trace s0) in
                case for_domains (Loop_off_body nextPowerState) pds (powerState s0, tr) of
                  (pds', st, tr') \<Rightarrow>
                    let s1 = s0\<lparr>domains := pds', powerState := st, trace := tr'\<rparr> in
                    if st \<noteq> 0 then s1
                    else snd (Activate (CPU_DeepSleep s1 irq) PWRMAN_STARTON))"

text \<open>\<open>tick s d irq\<close> is the call of \<^verbatim>\<open>Loop()\<close> made \<open>d\<close> milliseconds after the previous one.\<close>

definition tick :: "PowerManager \<Rightarrow> uint32_t \<Rightarrow> interrupt \<Rightarrow> PowerManager" where
  "tick s d irq = Loop s (lastLoopTime s + d) irq"

fun ticks :: "PowerManager \<Rightarrow> uint32_t list \<Rightarrow> interrupt \<Rightarrow> PowerManager" where
  "ticks s [] irq = s"
| "ticks s (d # ds) irq = ticks (tick s d irq) ds irq"

subsection \<open>Administrative commands\<close>

text \<open>
  \<^verbatim>\<open>strtok(str, ",")\<close>: leading commas are skipped; the result is the token and the
  text after the comma that ends it, or \<open>None\<close> for the null pointer.
\<close>

definition strtok_comma :: "string \<Rightarrow> (string \<times> string) option" where
  "strtok_comma str =
     (let str1 = dropWhile (\<lambda>c. c = CHR '','') str in
      if str1 = [] then None
      else Some (takeWhile (\<lambda>c. c \<noteq> CHR '','') str1,
                 drop 1 (dropWhile (\<lambda>c. c \<noteq> CHR '','') str1)))"

definition isspace :: "char \<Rightarrow> bool" where
  "isspace c = ((of_char c :: nat) = 32 \<or> (9 \<le> (of_char c :: nat) \<and> (of_char c :: nat) \<le> 13))"

definition isdigit :: "char \<Rightarrow> bool" where
  "isdigit c = (48 \<le> (of_char c :: nat) \<and> (of_char c :: nat) \<le> 57)"

text \<open>
  \<^verbatim>\<open>atoi\<close>: white space, an optional sign, decimal digits. (A value outside \<^verbatim>\<open>int\<close> is
  undefined in C; the conversion to \<^verbatim>\<open>uint32_t\<close> below wraps it.)
\<close>

definition atoi :: "string \<Rightarrow> int" where
  "atoi str =
     (let str1 = dropWhile isspace str;
          neg = (str1 \<noteq> [] \<and> hd str1 = CHR ''-'');
          str2 = (if str1 \<noteq> [] \<and> (hd str1 = CHR ''-'' \<or> hd str1 = CHR ''+'') then tl str1 else str1);
          n = foldl (\<lambda>a c. 10 * a + (int (of_char c) - 48)) 0 (takeWhile isdigit str2)
      in if neg then - n else n)"

text \<open>
  The loop of \<^verbatim>\<open>pwr-dom-request\<close>: \<open>token\<close> is the domain name, \<open>rest\<close> what
  \<^verbatim>\<open>strtok\<close> has left. A missing second token makes \<^verbatim>\<open>atoi(NULL)\<close>: result \<open>None\<close>.
\<close>

fun dom_request_loop ::
  "string \<Rightarrow> string \<Rightarrow> PowerDomain list \<Rightarrow> PDType_base \<Rightarrow> event list \<Rightarrow>
   (PowerDomain list \<times> PDType_base \<times> event list) option"
where
  "dom_request_loop token rest [] st tr = Some ([], st, tr)"
| "dom_request_loop token rest (pd # pds) st tr =
     (if token = pd_name pd then
        (case strtok_comma rest of
           None \<Rightarrow> None
         | Some (token2, rest2) \<Rightarrow>
             let requested_timeout = (word_of_int (atoi token2) :: uint32_t);
                 requested_timeout = (if requested_timeout < PWRMAN_MINTIMEOUT
                                      then PWRMAN_MINTIMEOUT else requested_timeout);
                 pd1 = ResetTimeout pd requested_timeout
             in
             if \<not> (PDType_val (pd_id pd) AND st \<noteq> 0) then
               (case SetPower pd1 True tr of (pd2, tr2) \<Rightarrow>
                  Some (pd2 # pds, st OR PDType_val (pd_id pd), tr2))
             else Some (pd1 # pds, st, tr))
      else
        (case dom_request_loop token rest pds st tr of
           None \<Rightarrow> None
         | Some (pds', r) \<Rightarrow> Some (pd # pds', r)))"

text \<open>The loop of \<^verbatim>\<open>pwr-dom-off\<close>: the first domain of that name is turned off.\<close>

fun dom_off_loop ::
  "string \<Rightarrow> PowerDomain list \<Rightarrow> PDType_base \<Rightarrow> event list \<Rightarrow>
   PowerDomain list \<times> PDType_base \<times> event list"
where
  "dom_off_loop arg [] st tr = ([], st, tr)"
| "dom_off_loop arg (pd # pds) st tr =
     (if arg = pd_name pd then
        (if PDType_val (pd_id pd) AND st \<noteq> 0 then
           (case SetPower pd False tr of (pd1, tr1) \<Rightarrow>
              (pd1\<lparr>countdownTimer := 0\<rparr> # pds, st AND NOT (PDType_val (pd_id pd)), tr1))
         else (pd # pds, st, tr))
      else
        (case dom_off_loop arg pds st tr of (pds', r) \<Rightarrow> (pd # pds', r)))"

text \<open>The loop of \<^verbatim>\<open>pwr-sub-request\<close>: the first subscriber of that name requests power.\<close>

fun sub_request_loop :: "string \<Rightarrow> PowerSubscriber list \<Rightarrow> PowerManager \<Rightarrow> PowerManager option" where
  "sub_request_loop arg [] s = Some s"
| "sub_request_loop arg (ps # pss) s =
     (if arg = ps_name ps then
        (case RequestPower s ps None of None \<Rightarrow> None | Some (r, s') \<Rightarrow> Some s')
      else sub_request_loop arg pss s)"

text \<open>The body of the loop of \<^verbatim>\<open>deepsleep\<close> that turns every active domain off.\<close>

definition deepsleep_off_body ::
  "PowerDomain \<Rightarrow> PDType_base \<times> event list \<Rightarrow> PowerDomain \<times> PDType_base \<times> event list"
where
  "deepsleep_off_body pd acc =
     (case acc of (st, tr) \<Rightarrow>
        if PDType_val (pd_id pd) AND st \<noteq> 0 then
          (case SetPower pd False tr of (pd1, tr1) \<Rightarrow>
             (pd1\<lparr>countdownTimer := 0\<rparr>, st AND NOT (PDType_val (pd_id pd)), tr1))
        else (pd, acc))"

text \<open>
  \<^verbatim>\<open>Parse(cmd, arg)\<close>. \<open>diag\<close> says whether \<^verbatim>\<open>DIAGNOSE_POWER\<close> is defined, \<open>saberOn\<close>
  is what \<^verbatim>\<open>SaberBase::IsOn()\<close> answers, \<open>irq\<close> the interrupt that ends the stop period
  of \<^verbatim>\<open>deepsleep\<close>. The result is the "handled" flag and the new state; \<open>None\<close> is
  undefined behaviour of the C++ (an argument that overflows \<^verbatim>\<open>argh[20]\<close>, a null token).
\<close>

definition Parse ::
  "bool \<Rightarrow> PowerManager \<Rightarrow> string \<Rightarrow> string \<Rightarrow> bool \<Rightarrow> interrupt \<Rightarrow> (bool \<times> PowerManager) option"
where
  "Parse diag s cmd arg saberOn irq =
     (if diag \<and> cmd = ''pwr-domains'' then Some (True, s)
      else if diag \<and> cmd = ''pwr-dom-request'' then
        (if 20 \<le> length arg then None
         else if domains s = [] then Some (True, s)
         else case strtok_comma arg of
           None \<Rightarrow> None
         | Some (token, rest) \<Rightarrow>
             (case dom_request_loop token rest (domains s) (powerState s) (trace s) of
                None \<Rightarrow> None
              | Some (pds, st, tr) \<Rightarrow>
                  Some (True, s\<lparr>domains := pds, powerState := st, trace := tr\<rparr>)))
      else if diag \<and> cmd = ''pwr-dom-off'' then
        (if domains s = [] then Some (True, s)
         else case dom_off_loop arg (domains s) (powerState s) (trace s) of
           (pds, st, tr) \<Rightarrow> Some (True, s\<lparr>domains := pds, powerState := st, trace := tr\<rparr>))
      else if diag \<and> cmd = ''pwr-subs'' then Some (True, s)
      else if diag \<and> cmd = ''pwr-sub-request'' then
        (if subscribers s = [] then Some (True, s)
         else case sub_request_loop arg (subscribers s) s of
           None \<Rightarrow> None
         | Some s' \<Rightarrow> Some (True, s'))
      else if cmd = ''deepsleep'' then
        (if saberOn then Some (True, s)
         else if domains s = [] then Some (True, s)
         else case for_domains deepsleep_off_body (domains s) (powerState s, trace s) of
           (pds, st, tr) \<Rightarrow>
             let s1 = s\<lparr>domains := pds, powerState := st,
                        trace := foldl (\<lambda>tr ps. PwrOff_Callback ps tr) tr (subscribers s)\<rparr>
             in Some (True, snd (Activate (CPU_DeepSleep s1 irq) PWRMAN_STARTON)))
      else Some (False, s))"

subsection \<open>Vocabulary of the statements\<close>

text \<open>The bit of a domain is set in a power state.\<close>

definition powered :: "PDType_base \<Rightarrow> PowerDomain \<Rightarrow> bool" where
  "powered st pd = (PDType_val (pd_id pd) AND st \<noteq> 0)"

text \<open>The bit of a domain is set in a mask and not in the power state.\<close>

definition wants_on :: "PDType_base \<Rightarrow> PDType_base \<Rightarrow> PowerDomain \<Rightarrow> bool" where
  "wants_on m st pd = (PDType_val (pd_id pd) AND m \<noteq> 0 \<and> \<not> powered st pd)"

text \<open>The bits of all registered domains.\<close>

fun domain_ids :: "PowerDomain list \<Rightarrow> PDType_base" where
  "domain_ids [] = 0"
| "domain_ids (pd # pds) = PDType_val (pd_id pd) OR domain_ids pds"

text \<open>
  The nominal poll period in milliseconds: the power manager is a
  \<^verbatim>\<open>Looper(PWRMAN_TIMEOUTRES)\<close>, the argument in microseconds.
\<close>

definition poll_period_ms :: uint32_t where
  "poll_period_ms = PWRMAN_TIMEOUTRES div 1000"

text \<open>
  Two subscribers for the examples, as in the test code at the end of
  \<^verbatim>\<open>xPowerManager.h\<close>, registered in this order.
\<close>

definition testSubscriber1 :: PowerSubscriber where
  "testSubscriber1 =
     \<lparr>ps_name = ''TestS1'', subscribedDomains = PDType_val pwr4_Booster, HoldPower = False\<rparr>"

definition testSubscriber2 :: PowerSubscriber where
  "testSubscriber2 =
     \<lparr>ps_name = ''TestS2'', subscribedDomains = PDType_val pwr4_SD OR PDType_val pwr4_CPU,
      HoldPower = False\<rparr>"

definition powerman_test :: PowerManager where
  "powerman_test = fold PowerSubscriber_ctor [testSubscriber1, testSubscriber2] powerman_static"


text \<open>The example after \<^verbatim>\<open>Activate(pwr4_CPU | pwr4_SD | pwr4_Booster)\<close>.\<close>

definition powerman_test_on :: PowerManager where
  "powerman_test_on = snd (Activate powerman_test 7)"


text \<open>The bit of a domain is set in the mask of a subscriber.\<close>

definition subscribed :: "PDType_base \<Rightarrow> PowerDomain \<Rightarrow> bool" where
  "subscribed sub pd = (PDType_val (pd_id pd) AND sub \<noteq> 0)"


text \<open>
  The bits of the domains that step 2 of \<^verbatim>\<open>Loop\<close> finds expired, and the next power
  state it marks.
\<close>

fun expired_ids :: "PDType_base \<Rightarrow> PDType_base \<Rightarrow> uint32_t \<Rightarrow> PowerDomain list \<Rightarrow> PDType_base" where
  "expired_ids st domainsToCheck loopTime [] = 0"
| "expired_ids st domainsToCheck loopTime (pd # pds) =
     (if PDType_val (pd_id pd) AND st AND domainsToCheck \<noteq> 0 \<and> snd (CheckTimeout pd loopTime)
      then PDType_val (pd_id pd) OR expired_ids st domainsToCheck loopTime pds
      else expired_ids st domainsToCheck loopTime pds)"

definition nextPowerState :: "PowerManager \<Rightarrow> uint32_t \<Rightarrow> PDType_base" where
  "nextPowerState s loopTime =
     snd (for_domains
            (Loop_check_body (powerState s) (NOT (heldDomains (subscribers s))) loopTime)
            (domains s) (powerState s))"


text \<open>Kinds of trace events.\<close>

fun is_power_off :: "event \<Rightarrow> bool" where
  "is_power_off (Call_SetPower i b) = (\<not> b)"
| "is_power_off e = False"

fun is_power_on :: "event \<Rightarrow> bool" where
  "is_power_on (Call_SetPower i b) = b"
| "is_power_on e = False"

fun is_off_callback :: "event \<Rightarrow> bool" where
  "is_off_callback (Call_PwrOff n) = True"
| "is_off_callback e = False"

fun is_on_callback :: "event \<Rightarrow> bool" where
  "is_on_callback (Call_PwrOn n) = True"
| "is_on_callback e = False"

text \<open>The example with the booster about to expire.\<close>

definition powerman_low :: PowerManager where
  "powerman_low =
     powerman_test_on\<lparr>domains :=
       [pwrdom_cpu\<lparr>countdownTimer := 59000, actuator := Some True\<rparr>,
        pwrdom_sd\<lparr>countdownTimer := 500, actuator := Some True\<rparr>,
        pwrdom_boost\<lparr>countdownTimer := 10, actuator := Some True\<rparr>,
        pwrdom_amp, pwrdom_pixel]\<rparr>"


text \<open>The domain list as step 2 of \<^verbatim>\<open>Loop\<close> leaves it.\<close>

definition checked_domains :: "PowerManager \<Rightarrow> uint32_t \<Rightarrow> PowerDomain list" where
  "checked_domains s loopTime =
     fst (for_domains
            (Loop_check_body (powerState s) (NOT (heldDomains (subscribers s))) loopTime)
            (domains s) (powerState s))"


text \<open>
  The example for hold: a subscriber of the amplifier that holds power. After start-up
  it requests power, six calls of \<^verbatim>\<open>Loop()\<close> follow at 10 ms each, then the hold is
  released and a seventh call follows.
\<close>

definition ampSubscriber :: PowerSubscriber where
  "ampSubscriber =
     \<lparr>ps_name = ''Amp'', subscribedDomains = PDType_val pwr4_Amplif, HoldPower = True\<rparr>"

definition powerman_hold :: PowerManager where
  "powerman_hold =
     (case RequestPower (Setup (PowerSubscriber_ctor ampSubscriber powerman_static))
             ampSubscriber None of
        Some (r, s) \<Rightarrow> s
      | None \<Rightarrow> powerman_static)"

definition release_hold :: "PowerManager \<Rightarrow> PowerManager" where
  "release_hold s = s\<lparr>subscribers := map (\<lambda>ps. ps\<lparr>HoldPower := False\<rparr>) (subscribers s)\<rparr>"

definition powerman_held :: PowerManager where
  "powerman_held = ticks powerman_hold [10, 10, 10, 10, 10, 10] IRQ_BTN"

definition powerman_released :: PowerManager where
  "powerman_released = tick (release_hold powerman_held) 10 IRQ_BTN"


subsection \<open>Invariants and runs\<close>

text \<open>
  A domain agrees with a power state: its bit is set exactly if its rail was last
  commanded on, and exactly if its countdown is armed.
\<close>

definition dom_ok :: "PDType_base \<Rightarrow> PowerDomain \<Rightarrow> bool" where
  "dom_ok st pd =
     ((powered st pd = (actuator pd = Some True)) \<and> (powered st pd = (countdownTimer pd \<noteq> 0)))"

text \<open>
  The invariant of the global power state: for every registered domain, its bit is set
  if and only if the last \<^verbatim>\<open>SetPower\<close> issued on it had argument true.
\<close>

definition actuator_inv :: "PowerManager \<Rightarrow> bool" where
  "actuator_inv s = (\<forall>pd\<in>set (domains s). powered (powerState s) pd = (actuator pd = Some True))"

text \<open>
  The well-formed states: the domain identifiers are distinct flags (none is
  \<^verbatim>\<open>pwr4_none\<close>), every domain agrees with the power state, and every bit of the power
  state belongs to a registered domain.
\<close>

definition pm_inv :: "PowerManager \<Rightarrow> bool" where
  "pm_inv s =
     (distinct (map pd_id (domains s)) \<and> pwr4_none \<notin> set (map pd_id (domains s)) \<and>
      (\<forall>pd\<in>set (domains s). dom_ok (powerState s) pd) \<and>
      powerState s AND NOT (domain_ids (domains s)) = 0)"

text \<open>
  What one pass over the domain list may do to a domain and to the power state: leave
  both, switch the domain on, switch it off, re-arm a domain that is on, or change an
  armed countdown to another armed one.
\<close>

inductive local_step :: "PowerDomain \<Rightarrow> PDType_base \<Rightarrow> PowerDomain \<Rightarrow> PDType_base \<Rightarrow> bool" where
  keep: "local_step p st p st"
| turn_on: "pd_id p' = pd_id p \<Longrightarrow> pd_id p \<noteq> pwr4_none \<Longrightarrow> actuator p' = Some True \<Longrightarrow>
     countdownTimer p' \<noteq> 0 \<Longrightarrow> local_step p st p' (st OR PDType_val (pd_id p))"
| turn_off: "pd_id p' = pd_id p \<Longrightarrow> actuator p' = Some False \<Longrightarrow> countdownTimer p' = 0 \<Longrightarrow>
     local_step p st p' (st AND NOT (PDType_val (pd_id p)))"
| rearm: "pd_id p' = pd_id p \<Longrightarrow> powered st p \<Longrightarrow> actuator p' = actuator p \<Longrightarrow>
     countdownTimer p' \<noteq> 0 \<Longrightarrow> local_step p st p' st"
| retime: "pd_id p' = pd_id p \<Longrightarrow> actuator p' = actuator p \<Longrightarrow>
     (countdownTimer p' \<noteq> 0) = (countdownTimer p \<noteq> 0) \<Longrightarrow> local_step p st p' st"

inductive local_steps ::
  "PowerDomain list \<Rightarrow> PDType_base \<Rightarrow> PowerDomain list \<Rightarrow> PDType_base \<Rightarrow> bool"
where
  Nil: "local_steps [] st [] st"
| Cons: "local_step p st p' st1 \<Longrightarrow> local_steps pds st1 pds' st' \<Longrightarrow>
     local_steps (p # pds) st (p' # pds') st'"

text \<open>
  The calls that reach the power manager, and runs of them. \<open>Ev_Hold f\<close> is the
  environment changing what the subscribers answer to \<^verbatim>\<open>HoldPower()\<close>.
\<close>

datatype call =
  Ev_Setup
| Ev_Loop uint32_t interrupt
| Ev_Activate PDType_base
| Ev_RequestPower PowerSubscriber "uint32_t list option"
| Ev_Parse string string bool interrupt
| Ev_Hold "PowerSubscriber \<Rightarrow> bool"

fun do_call :: "bool \<Rightarrow> PowerManager \<Rightarrow> call \<Rightarrow> PowerManager option" where
  "do_call diag s Ev_Setup = Some (Setup s)"
| "do_call diag s (Ev_Loop timeNow irq) = Some (Loop s timeNow irq)"
| "do_call diag s (Ev_Activate m) = Some (snd (Activate s m))"
| "do_call diag s (Ev_RequestPower ps tmo) =
     (case RequestPower s ps tmo of None \<Rightarrow> None | Some (r, s') \<Rightarrow> Some s')"
| "do_call diag s (Ev_Parse cmd arg saberOn irq) =
     (case Parse diag s cmd arg saberOn irq of None \<Rightarrow> None | Some (r, s') \<Rightarrow> Some s')"
| "do_call diag s (Ev_Hold f) =
     Some (s\<lparr>subscribers := map (\<lambda>ps. ps\<lparr>HoldPower := f ps\<rparr>) (subscribers s)\<rparr>)"

fun run :: "bool \<Rightarrow> PowerManager \<Rightarrow> call list \<Rightarrow> PowerManager option" where
  "run diag s [] = Some s"
| "run diag s (c # cs) = (case do_call diag s c of None \<Rightarrow> None | Some s' \<Rightarrow> run diag s' cs)"


text \<open>
  A domain expires in a call of \<^verbatim>\<open>Loop()\<close> with elapsed time \<open>lt\<close>: it is active and not
  on hold, and \<^verbatim>\<open>CheckTimeout\<close> reports expiry. \<open>arbitrated\<close> is what steps 2 and 4 of
  the call make of a domain.
\<close>

definition expires :: "PowerManager \<Rightarrow> uint32_t \<Rightarrow> PowerDomain \<Rightarrow> bool" where
  "expires s lt pd =
     (PDType_val (pd_id pd) AND powerState s AND NOT (heldDomains (subscribers s)) \<noteq> 0 \<and>
      snd (CheckTimeout pd lt))"

definition arbitrated :: "PowerManager \<Rightarrow> uint32_t \<Rightarrow> PowerDomain \<Rightarrow> PowerDomain" where
  "arbitrated s lt pd =
     (if expires s lt pd then pd\<lparr>countdownTimer := 0, actuator := Some False\<rparr>
      else if PDType_val (pd_id pd) AND powerState s AND NOT (heldDomains (subscribers s)) \<noteq> 0
      then fst (CheckTimeout pd lt)
      else pd)"


text \<open>
  The state that steps 1 to 4 of a call of \<^verbatim>\<open>Loop()\<close> at time \<open>timeNow\<close> leave, when the
  call is not skipped and the domain identifiers are distinct.
\<close>

definition arbitration :: "PowerManager \<Rightarrow> uint32_t \<Rightarrow> PowerManager" where
  "arbitration s timeNow =
     s\<lparr>lastLoopTime := timeNow,
       domains := map (arbitrated s (timeNow - lastLoopTime s)) (domains s),
       powerState := nextPowerState s (timeNow - lastLoopTime s),
       trace := trace s
         @ map (\<lambda>ps. Call_PwrOff (ps_name ps))
             (filter (\<lambda>ps. IsOn (powerState s) ps \<and>
                           \<not> IsOn (nextPowerState s (timeNow - lastLoopTime s)) ps) (subscribers s))
         @ map (\<lambda>pd. Call_SetPower (pd_id pd) False)
             (filter (expires s (timeNow - lastLoopTime s)) (domains s))\<rparr>"


text \<open>The number of times the sleep transition has been entered.\<close>

definition sleep_entries :: "event list \<Rightarrow> nat" where
  "sleep_entries tr = count_list tr Enter_DeepSleep"

text \<open>The time that a list of calls of \<^verbatim>\<open>Loop()\<close> adds up to, in milliseconds.\<close>

definition elapsed :: "uint32_t list \<Rightarrow> nat" where
  "elapsed ds = sum_list (map unat ds)"


text \<open>
  The static configuration after a first stop period that the serial line has ended,
  with every registered domain activated.
\<close>

definition powerman_woken :: PowerManager where
  "powerman_woken =
     snd (Activate (CPU_DeepSleep powerman_static IRQ_SER) (domain_ids (domains powerman_static)))"




section \<open>Properties of the domain timer\<close>

lemma ResetTimeout_timer:
  "countdownTimer (ResetTimeout pd t) = max (countdownTimer pd) (clamp_spec pd t)"
  by (auto simp: ResetTimeout_def clamp_spec_def Let_def max_def)

lemma ResetTimeout_fields [simp]:
  "pd_id (ResetTimeout pd t) = pd_id pd"
  "pd_name (ResetTimeout pd t) = pd_name pd"
  "pd_timeout (ResetTimeout pd t) = pd_timeout pd"
  "actuator (ResetTimeout pd t) = actuator pd"
  by (simp_all add: ResetTimeout_def Let_def)

lemma clamp_spec_ResetTimeout [simp]:
  "clamp_spec (ResetTimeout pd u) t = clamp_spec pd t"
  by (simp add: clamp_spec_def)

lemma foldl_ResetTimeout_clamp [simp]:
  "clamp_spec (foldl ResetTimeout pd ts) t = clamp_spec pd t"
  by (induction ts arbitrary: pd) simp_all

lemma foldl_ResetTimeout_timer:
  "countdownTimer (foldl ResetTimeout pd ts) =
     Max (insert (countdownTimer pd) (clamp_spec pd ` set ts))"
proof (induction ts arbitrary: pd)
  case Nil
  show ?case by simp
next
  case (Cons t ts)
  have "countdownTimer (foldl ResetTimeout pd (t # ts)) =
          Max (insert (max (countdownTimer pd) (clamp_spec pd t)) (clamp_spec pd ` set ts))"
    by (simp add: Cons.IH ResetTimeout_timer)
  also have "\<dots> = Max (insert (countdownTimer pd) (insert (clamp_spec pd t) (clamp_spec pd ` set ts)))"
    by (cases "ts = []") (simp_all add: max.assoc)
  finally show ?case by simp
qed

text \<open>
  C3. A run of \<^verbatim>\<open>ResetTimeout(t1) ... ResetTimeout(tn)\<close> on one domain, with nothing
  else touching the timer in between, leaves the maximum of the timer it started from
  and the clamped requests; started from an unarmed timer (0: a fresh domain, or one
  that has just expired) the stored countdown is exactly the maximum of the clamped
  requests. A single request never lowers the countdown, and a request below the floor
  is stored as the floor (unless the countdown is already higher), never refused.
\<close>

theorem ResetTimeout_monotonic_max:
  "countdownTimer (foldl ResetTimeout pd ts) =
     Max (insert (countdownTimer pd) (clamp_spec pd ` set ts)) \<and>
   (ts \<noteq> [] \<and> countdownTimer pd = 0 \<longrightarrow>
     countdownTimer (foldl ResetTimeout pd ts) = Max (clamp_spec pd ` set ts)) \<and>
   countdownTimer pd \<le> countdownTimer (ResetTimeout pd t) \<and>
   (t \<noteq> 0 \<and> t < PWRMAN_MINTIMEOUT \<longrightarrow>
     countdownTimer (ResetTimeout pd t) = max (countdownTimer pd) PWRMAN_MINTIMEOUT)"
proof (intro conjI impI)
  show g: "countdownTimer (foldl ResetTimeout pd ts) =
     Max (insert (countdownTimer pd) (clamp_spec pd ` set ts))"
    by (rule foldl_ResetTimeout_timer)
  show "countdownTimer (foldl ResetTimeout pd ts) = Max (clamp_spec pd ` set ts)"
    if "ts \<noteq> [] \<and> countdownTimer pd = 0"
  proof -
    have "Max (insert 0 (clamp_spec pd ` set ts)) = max 0 (Max (clamp_spec pd ` set ts))"
      using that by (simp add: max.commute)
    then show ?thesis using g that by (simp add: max_def)
  qed
  show "countdownTimer pd \<le> countdownTimer (ResetTimeout pd t)"
    by (simp add: ResetTimeout_timer)
  show "countdownTimer (ResetTimeout pd t) = max (countdownTimer pd) PWRMAN_MINTIMEOUT"
    if "t \<noteq> 0 \<and> t < PWRMAN_MINTIMEOUT"
    using that by (auto simp: ResetTimeout_timer clamp_spec_def max_def)
qed

theorem ResetTimeout_monotonic_max_witness:
  "countdownTimer (foldl ResetTimeout pwrdom_amp [100, 0, 5]) = 100 \<and>
   countdownTimer (ResetTimeout pwrdom_amp 5) = 20"
proof -
  have h1: "[100, 0, 5 :: uint32_t] \<noteq> [] \<and> countdownTimer pwrdom_amp = 0"
    by (simp add: pwrdom_amp_def)
  have h2: "(5 :: uint32_t) \<noteq> 0 \<and> 5 < PWRMAN_MINTIMEOUT"
    by (simp add: PWRMAN_MINTIMEOUT_def)
  from ResetTimeout_monotonic_max [of pwrdom_amp "[100, 0, 5]" 5] h1 h2
  have "countdownTimer (foldl ResetTimeout pwrdom_amp [100, 0, 5]) =
          Max (clamp_spec pwrdom_amp ` set [100, 0, 5])"
    and "countdownTimer (ResetTimeout pwrdom_amp 5) =
          max (countdownTimer pwrdom_amp) PWRMAN_MINTIMEOUT"
    by blast+
  then show ?thesis
    by (simp add: clamp_spec_def pwrdom_amp_def PWRMAN_MINTIMEOUT_def PWRMAN_AMPTIMEOUT_def)
qed

text \<open>
  The equation of the claim fails when a call of \<^verbatim>\<open>CheckTimeout\<close> that reports no expiry
  comes between two requests: after \<^verbatim>\<open>ResetTimeout(100)\<close>, a tick of 10 ms and
  \<^verbatim>\<open>ResetTimeout(50)\<close> the amplifier domain stores 90, while the maximum of the clamped
  requests is 100.
\<close>

theorem ResetTimeout_tick_counterexample:
  "CheckTimeout (ResetTimeout pwrdom_amp 100) 10 = (pwrdom_amp\<lparr>countdownTimer := 90\<rparr>, False) \<and>
   countdownTimer (ResetTimeout (fst (CheckTimeout (ResetTimeout pwrdom_amp 100) 10)) 50) = 90 \<and>
   max (clamp_spec pwrdom_amp 100) (clamp_spec pwrdom_amp 50) = 100 \<and>
   countdownTimer (ResetTimeout (fst (CheckTimeout (ResetTimeout pwrdom_amp 100) 10)) 50)
     \<noteq> max (clamp_spec pwrdom_amp 100) (clamp_spec pwrdom_amp 50)"
  by (simp add: ResetTimeout_def CheckTimeout_def clamp_spec_def pwrdom_amp_def
        PWRMAN_MINTIMEOUT_def PWRMAN_AMPTIMEOUT_def)

lemma CheckTimeout_run_idle:
  "countdownTimer pd = 0 \<Longrightarrow> CheckTimeout_run pd es = (pd, replicate (length es) False)"
  by (induction es) (simp_all add: CheckTimeout_def)

text \<open>
  C4. On a timer of 0, \<^verbatim>\<open>CheckTimeout\<close> reports no expiry and leaves the timer at 0, and
  so does every further call (after an expiry the timer is 0). On a timer \<open>t > 0\<close>, it
  reports expiry and sets the timer to 0 when \<open>t - elapsed \<le> 0\<close>; otherwise it stores
  \<open>t - elapsed\<close> and reports no expiry.
\<close>

theorem CheckTimeout_cases:
  "(countdownTimer pd = 0 \<longrightarrow>
      CheckTimeout pd e = (pd, False) \<and>
      CheckTimeout_run pd es = (pd, replicate (length es) False)) \<and>
   (countdownTimer pd \<noteq> 0 \<and> uint (countdownTimer pd) - uint e \<le> 0 \<longrightarrow>
      CheckTimeout pd e = (pd\<lparr>countdownTimer := 0\<rparr>, True) \<and>
      CheckTimeout_run (fst (CheckTimeout pd e)) es =
        (pd\<lparr>countdownTimer := 0\<rparr>, replicate (length es) False)) \<and>
   (countdownTimer pd \<noteq> 0 \<and> 0 < uint (countdownTimer pd) - uint e \<longrightarrow>
      CheckTimeout pd e = (pd\<lparr>countdownTimer := countdownTimer pd - e\<rparr>, False) \<and>
      uint (countdownTimer pd - e) = uint (countdownTimer pd) - uint e)"
proof (intro conjI impI)
  assume "countdownTimer pd = 0"
  then show "CheckTimeout pd e = (pd, False)"
    and "CheckTimeout_run pd es = (pd, replicate (length es) False)"
    by (simp_all add: CheckTimeout_def CheckTimeout_run_idle)
next
  assume a: "countdownTimer pd \<noteq> 0 \<and> uint (countdownTimer pd) - uint e \<le> 0"
  then have le: "countdownTimer pd \<le> e"
    by (simp add: word_le_def)
  with a show c: "CheckTimeout pd e = (pd\<lparr>countdownTimer := 0\<rparr>, True)"
    by (simp add: CheckTimeout_def)
  show "CheckTimeout_run (fst (CheckTimeout pd e)) es =
        (pd\<lparr>countdownTimer := 0\<rparr>, replicate (length es) False)"
    by (simp add: c CheckTimeout_run_idle)
next
  assume a: "countdownTimer pd \<noteq> 0 \<and> 0 < uint (countdownTimer pd) - uint e"
  then have lt: "e < countdownTimer pd"
    by (simp add: word_less_def)
  with a show "CheckTimeout pd e = (pd\<lparr>countdownTimer := countdownTimer pd - e\<rparr>, False)"
    by (simp add: CheckTimeout_def not_le)
  from lt show "uint (countdownTimer pd - e) = uint (countdownTimer pd) - uint e"
    by (simp add: uint_sub_if_size word_less_def word_le_def)
qed

theorem CheckTimeout_cases_witness:
  "CheckTimeout pwrdom_amp 10 = (pwrdom_amp, False) \<and>
   CheckTimeout_run pwrdom_amp [10, 30] = (pwrdom_amp, [False, False]) \<and>
   CheckTimeout (pwrdom_amp\<lparr>countdownTimer := 50\<rparr>) 60 = (pwrdom_amp, True) \<and>
   CheckTimeout (pwrdom_amp\<lparr>countdownTimer := 50\<rparr>) 10 =
     (pwrdom_amp\<lparr>countdownTimer := 40\<rparr>, False)"
proof -
  have h1: "countdownTimer pwrdom_amp = 0"
    by (simp add: pwrdom_amp_def)
  have h2: "countdownTimer (pwrdom_amp\<lparr>countdownTimer := 50\<rparr>) \<noteq> 0 \<and>
            uint (countdownTimer (pwrdom_amp\<lparr>countdownTimer := 50\<rparr>)) - uint (60 :: uint32_t) \<le> 0"
    by simp
  have h3: "countdownTimer (pwrdom_amp\<lparr>countdownTimer := 50\<rparr>) \<noteq> 0 \<and>
            0 < uint (countdownTimer (pwrdom_amp\<lparr>countdownTimer := 50\<rparr>)) - uint (10 :: uint32_t)"
    by simp
  from CheckTimeout_cases [of pwrdom_amp 10 "[10, 30]"] h1
  have r1: "CheckTimeout pwrdom_amp 10 = (pwrdom_amp, False)"
    and r2: "CheckTimeout_run pwrdom_amp [10, 30] = (pwrdom_amp, replicate (length [10, 30 :: uint32_t]) False)"
    by blast+
  from CheckTimeout_cases [of "pwrdom_amp\<lparr>countdownTimer := 50\<rparr>" 60 "[]"] h2
  have r3: "CheckTimeout (pwrdom_amp\<lparr>countdownTimer := 50\<rparr>) 60 =
              (pwrdom_amp\<lparr>countdownTimer := 50\<rparr>\<lparr>countdownTimer := 0\<rparr>, True)"
    by blast
  from CheckTimeout_cases [of "pwrdom_amp\<lparr>countdownTimer := 50\<rparr>" 10 "[]"] h3
  have r4: "CheckTimeout (pwrdom_amp\<lparr>countdownTimer := 50\<rparr>) 10 =
              (pwrdom_amp\<lparr>countdownTimer := 50\<rparr>\<lparr>countdownTimer := countdownTimer (pwrdom_amp\<lparr>countdownTimer := 50\<rparr>) - 10\<rparr>, False)"
    by blast
  have e: "pwrdom_amp\<lparr>countdownTimer := 0\<rparr> = pwrdom_amp"
    by (simp add: pwrdom_amp_def)
  from r1 r2 r3 r4 e show ?thesis
    by simp
qed

section \<open>Bit masks of domain identifiers\<close>

lemma and_andnot_disjoint: "(x::'a::len word) AND y = 0 \<Longrightarrow> x AND (s AND NOT y) = x AND s"
  by (rule bit_eqI) (auto simp: bit_simps bit_eq_iff)

lemma and_or_disjoint: "(x::'a::len word) AND y = 0 \<Longrightarrow> x AND (s OR y) = x AND s"
  by (simp add: bit.conj_disj_distrib)

lemma and_andnot_self: "(x::'a::len word) AND (s AND NOT x) = 0"
  by (rule bit_eqI) (auto simp: bit_simps)

lemma and_or_self: "(x::'a::len word) AND (s OR x) = x"
  by (rule bit_eqI) (auto simp: bit_simps)

lemma PDType_val_disjoint: "i \<noteq> j \<Longrightarrow> PDType_val i AND PDType_val j = 0"
  by (cases i; cases j; simp)

lemma PDType_val_pow: "i \<noteq> pwr4_none \<Longrightarrow> \<exists>k. PDType_val i = 2 ^ k"
proof (cases i)
  case pwr4_CPU then show ?thesis by (auto intro: exI[of _ 0]) next
  case pwr4_SD then show ?thesis by (auto intro: exI[of _ 1]) next
  case pwr4_Booster then show ?thesis by (auto intro: exI[of _ 2]) next
  case pwr4_Amplif then show ?thesis by (auto intro: exI[of _ 3]) next
  case pwr4_Pixel then show ?thesis by (auto intro: exI[of _ 4]) next
  case pwr4_Charger then show ?thesis by (auto intro: exI[of _ 5])
qed simp

lemma pow_and_single: "(2 ^ k :: 'a::len word) AND y \<noteq> 0 \<Longrightarrow> 2 ^ k AND y = 2 ^ k"
proof -
  assume "2 ^ k AND y \<noteq> 0"
  then have "bit y k" by (metis and.commute and_exp_eq_0_iff_not_bit)
  then show ?thesis
    by (intro bit_eqI) (auto simp: bit_and_iff bit_exp_iff)
qed

lemma PDType_val_single: "PDType_val i AND y \<noteq> 0 \<Longrightarrow> PDType_val i AND y = PDType_val i"
  using PDType_val_pow[of i] pow_and_single by (cases "i = pwr4_none") auto

lemma PDType_val_inj: "PDType_val i = PDType_val j \<Longrightarrow> i = j"
  by (cases i; cases j; simp)

lemma powered_or:
  "pd_id d \<noteq> pd_id p \<Longrightarrow> powered (st OR PDType_val (pd_id p)) d = powered st d"
  by (simp add: powered_def and_or_disjoint PDType_val_disjoint)

lemma powered_andnot:
  "pd_id d \<noteq> pd_id p \<Longrightarrow> powered (st AND NOT (PDType_val (pd_id p))) d = powered st d"
  by (simp add: powered_def and_andnot_disjoint PDType_val_disjoint)

lemma powered_or_self: "powered (st OR PDType_val (pd_id p)) p = (pd_id p \<noteq> pwr4_none)"
  by (cases "pd_id p") (simp_all add: powered_def and_or_self)

lemma powered_andnot_self: "\<not> powered (st AND NOT (PDType_val (pd_id p))) p"
  by (simp add: powered_def and_andnot_self)

lemma wants_on_or:
  "pd_id d \<noteq> pd_id p \<Longrightarrow> wants_on m (st OR PDType_val (pd_id p)) d = wants_on m st d"
  by (simp add: wants_on_def powered_or)

lemma or_mask_absorb:
  "st OR (m AND (PDType_val i OR x)) =
     (if PDType_val i AND m \<noteq> 0 then (st OR PDType_val i) OR (m AND x) else st OR (m AND x))"
proof (cases "PDType_val i AND m \<noteq> 0")
  case True
  then have "m AND PDType_val i = PDType_val i"
    using PDType_val_single[of i m] by (simp add: and.commute)
  then show ?thesis using True
    by (simp add: bit.conj_disj_distrib or.assoc)
next
  case False
  then have "m AND PDType_val i = 0" by (simp add: and.commute)
  then show ?thesis using False by (simp add: bit.conj_disj_distrib)
qed

lemma or_powered_absorb: "powered st pd \<Longrightarrow> st OR PDType_val (pd_id pd) = st"
proof -
  assume "powered st pd"
  then have "PDType_val (pd_id pd) AND st = PDType_val (pd_id pd)"
    using PDType_val_single by (simp add: powered_def)
  then show ?thesis
    by (intro bit_eqI) (metis bit_and_iff bit_or_iff)
qed

lemma distinct_ids_tail:
  "distinct (map pd_id (p # pds)) \<Longrightarrow> d \<in> set pds \<Longrightarrow> pd_id d \<noteq> pd_id p"
  by (auto simp: image_iff)

section \<open>Loops over the domain list\<close>

lemma for_domains_length:
  "for_domains body pds acc = (pds', acc') \<Longrightarrow> length pds' = length pds"
  by (induction pds arbitrary: acc pds' acc') (auto split: prod.splits)

section \<open>Activation\<close>

lemma Activate_body_eq:
  "Activate_body m pd (st, tr, r) =
     (if wants_on m st pd
      then ((ResetTimeout pd 0)\<lparr>actuator := Some True\<rparr>, st OR PDType_val (pd_id pd),
            tr @ [Call_SetPower (pd_id pd) True], True)
      else (pd, st, tr, r))"
  by (simp add: Activate_body_def wants_on_def powered_def SetPower_def)

lemma Activate_loop:
  "distinct (map pd_id pds) \<Longrightarrow>
   for_domains (Activate_body m) pds (st, tr, r) =
     (map (\<lambda>pd. if wants_on m st pd then (ResetTimeout pd 0)\<lparr>actuator := Some True\<rparr> else pd) pds,
      st OR (m AND domain_ids pds),
      tr @ map (\<lambda>pd. Call_SetPower (pd_id pd) True) (filter (wants_on m st) pds),
      r \<or> (\<exists>pd\<in>set pds. wants_on m st pd))"
proof (induction pds arbitrary: st tr r)
  case Nil
  show ?case by simp
next
  case (Cons p pds)
  have tail: "\<And>d. d \<in> set pds \<Longrightarrow> wants_on m (st OR PDType_val (pd_id p)) d = wants_on m st d"
    using Cons.prems by (intro wants_on_or distinct_ids_tail)
  have d: "distinct (map pd_id pds)" using Cons.prems by simp
  show ?case
  proof (cases "wants_on m st p")
    case True
    then have bit: "PDType_val (pd_id p) AND m \<noteq> 0" by (simp add: wants_on_def)
    have f: "filter (wants_on m (st OR PDType_val (pd_id p))) pds = filter (wants_on m st) pds"
      using tail by (intro filter_cong) auto
    show ?thesis using True bit tail
      by (simp add: Activate_body_eq Cons.IH[OF d] f or_mask_absorb cong: map_cong)
  next
    case False
    then have "st OR (m AND (PDType_val (pd_id p) OR domain_ids pds)) = st OR (m AND domain_ids pds)"
      by (auto simp: or_mask_absorb wants_on_def or_powered_absorb)
    then show ?thesis using False
      by (simp add: Activate_body_eq Cons.IH[OF d])
  qed
qed

lemma foldl_PwrOn:
  "foldl (\<lambda>tr ps. if P ps then PwrOn_Callback ps tr else tr) tr pss =
     tr @ map (\<lambda>ps. Call_PwrOn (ps_name ps)) (filter P pss)"
  by (induction pss arbitrary: tr) (simp_all add: PwrOn_Callback_def)

lemma Activate_eq:
  assumes "distinct (map pd_id (domains s))"
  shows "Activate s m =
     (\<exists>pd\<in>set (domains s). wants_on m (powerState s) pd,
      s\<lparr>domains := map (\<lambda>pd. if wants_on m (powerState s) pd
                             then (ResetTimeout pd 0)\<lparr>actuator := Some True\<rparr> else pd) (domains s),
        powerState := powerState s OR (m AND domain_ids (domains s)),
        trace := trace s
          @ map (\<lambda>pd. Call_SetPower (pd_id pd) True) (filter (wants_on m (powerState s)) (domains s))
          @ (if \<exists>pd\<in>set (domains s). wants_on m (powerState s) pd
             then map (\<lambda>ps. Call_PwrOn (ps_name ps))
                    (filter (IsOn (powerState s OR (m AND domain_ids (domains s)))) (subscribers s))
             else [])\<rparr>)"
proof (cases "domains s = []")
  case True
  then show ?thesis by (simp add: Activate_def)
next
  case False
  then show ?thesis
    by (simp add: Activate_def Activate_loop[OF assms] foldl_PwrOn)
qed

lemma fold_PowerSubscriber_ctor:
  "subscribers (fold PowerSubscriber_ctor pss s) =
     rev (filter (\<lambda>ps. subscribedDomains ps \<noteq> 0) pss) @ subscribers s"
  by (induction pss arbitrary: s) (simp_all add: PowerSubscriber_ctor_def)

lemma fold_PowerDomain_ctor:
  "domains (fold PowerDomain_ctor pds s) =
     rev (map (\<lambda>pd. pd\<lparr>countdownTimer := 0, actuator := None\<rparr>) pds) @ domains s"
  by (induction pds arbitrary: s) (simp_all add: PowerDomain_ctor_def)


section \<open>The example configuration\<close>

lemmas example_defs =
  powerman_test_def powerman_static_def PowerManager_ctor_def PowerDomain_ctor_def
  PowerSubscriber_ctor_def testSubscriber1_def testSubscriber2_def
  pwrdom_pixel_def pwrdom_amp_def pwrdom_boost_def pwrdom_sd_def pwrdom_cpu_def
  PWRMAN_DEFTIMEOUT_def PWRMAN_AMPTIMEOUT_def PWRMAN_CPUTIMEOUT_def PWRMAN_MINTIMEOUT_def
  PWRMAN_STARTON_def

lemma powerman_test_eq:
  "powerman_test =
     \<lparr>domains = [pwrdom_cpu, pwrdom_sd, pwrdom_boost, pwrdom_amp, pwrdom_pixel],
      subscribers = [testSubscriber2, testSubscriber1],
      wakeUpSource = wakeUp_none, powerState = 0, lastLoopTime = 0, trace = []\<rparr>"
  by (simp add: example_defs)

lemma powerman_test_distinct: "distinct (map pd_id (domains powerman_test))"
  by (simp add: example_defs)

lemma Activate_test_7:
  "Activate powerman_test 7 =
     (True,
      \<lparr>domains = [pwrdom_cpu\<lparr>countdownTimer := 60000, actuator := Some True\<rparr>,
                  pwrdom_sd\<lparr>countdownTimer := 1000, actuator := Some True\<rparr>,
                  pwrdom_boost\<lparr>countdownTimer := 1000, actuator := Some True\<rparr>,
                  pwrdom_amp, pwrdom_pixel],
       subscribers = [testSubscriber2, testSubscriber1],
       wakeUpSource = wakeUp_none, powerState = 7, lastLoopTime = 0,
       trace = [Call_SetPower pwr4_CPU True, Call_SetPower pwr4_SD True,
                Call_SetPower pwr4_Booster True, Call_PwrOn ''TestS2'', Call_PwrOn ''TestS1'']\<rparr>)"
  by (subst Activate_eq[OF powerman_test_distinct])
     (simp add: powerman_test_eq wants_on_def powered_def IsOn_def ResetTimeout_def example_defs)

lemma powerman_test_on_eq:
  "powerman_test_on =
      \<lparr>domains = [pwrdom_cpu\<lparr>countdownTimer := 60000, actuator := Some True\<rparr>,
                  pwrdom_sd\<lparr>countdownTimer := 1000, actuator := Some True\<rparr>,
                  pwrdom_boost\<lparr>countdownTimer := 1000, actuator := Some True\<rparr>,
                  pwrdom_amp, pwrdom_pixel],
       subscribers = [testSubscriber2, testSubscriber1],
       wakeUpSource = wakeUp_none, powerState = 7, lastLoopTime = 0,
       trace = [Call_SetPower pwr4_CPU True, Call_SetPower pwr4_SD True,
                Call_SetPower pwr4_Booster True, Call_PwrOn ''TestS2'', Call_PwrOn ''TestS1'']\<rparr>"
  by (simp add: powerman_test_on_def Activate_test_7)

lemma powerman_test_on_distinct: "distinct (map pd_id (domains powerman_test_on))"
  by (simp add: powerman_test_on_eq example_defs)

lemma domain_ids_member:
  "pd \<in> set pds \<Longrightarrow> PDType_val (pd_id pd) AND domain_ids pds = PDType_val (pd_id pd)"
proof (induction pds)
  case Nil
  then show ?case by simp
next
  case (Cons p pds)
  show ?case
  proof (cases "pd = p")
    case True
    then show ?thesis by (simp add: or.commute and_or_self)
  next
    case False
    with Cons have "PDType_val (pd_id pd) AND domain_ids pds = PDType_val (pd_id pd)" by simp
    then show ?thesis
      by (intro bit_eqI) (metis bit_and_iff bit_or_iff domain_ids.simps(2))
  qed
qed

section \<open>C7: activation\<close>

text \<open>
  C7, as the code has it. With distinct domain identifiers, \<^verbatim>\<open>Activate(mask)\<close> arms
  (by \<^verbatim>\<open>ResetTimeout()\<close>), marks live and switches on exactly the registered domains
  whose bit is in the mask and not in the live state, in list order. It returns true
  if and only if there is such a domain. Only if it returns true does it run the on
  callbacks: then once for every subscriber whose \<^verbatim>\<open>IsOn()\<close> holds in the new state,
  in the order of the subscriber list; if no domain went on, no callback runs. The
  subscriber list is in reverse registration order, since each constructor links the
  new subscriber in front.
\<close>

theorem Activate_spec:
  "distinct (map pd_id (domains s)) \<Longrightarrow>
     domains (snd (Activate s m)) =
       map (\<lambda>pd. if wants_on m (powerState s) pd
                 then (ResetTimeout pd 0)\<lparr>actuator := Some True\<rparr> else pd) (domains s) \<and>
     powerState (snd (Activate s m)) = powerState s OR (m AND domain_ids (domains s)) \<and>
     (\<forall>pd\<in>set (domains s). wants_on m (powerState s) pd \<longrightarrow>
        powered (powerState (snd (Activate s m))) pd) \<and>
     fst (Activate s m) = (\<exists>pd\<in>set (domains s). wants_on m (powerState s) pd) \<and>
     trace (snd (Activate s m)) =
       trace s
       @ map (\<lambda>pd. Call_SetPower (pd_id pd) True) (filter (wants_on m (powerState s)) (domains s))
       @ (if fst (Activate s m)
          then map (\<lambda>ps. Call_PwrOn (ps_name ps))
                 (filter (IsOn (powerState (snd (Activate s m)))) (subscribers s))
          else []) \<and>
     subscribers (snd (Activate s m)) = subscribers s \<and>
     subscribers (fold PowerSubscriber_ctor pss s) =
       rev (filter (\<lambda>ps. subscribedDomains ps \<noteq> 0) pss) @ subscribers s"
proof -
  assume d: "distinct (map pd_id (domains s))"
  have live: "powered (powerState s OR (m AND domain_ids (domains s))) pd"
    if "pd \<in> set (domains s)" "wants_on m (powerState s) pd" for pd
  proof -
    from that(1) have "PDType_val (pd_id pd) AND domain_ids (domains s) = PDType_val (pd_id pd)"
      by (rule domain_ids_member)
    moreover from that(2) have "PDType_val (pd_id pd) AND m = PDType_val (pd_id pd)"
      and "PDType_val (pd_id pd) \<noteq> 0"
      using PDType_val_single[of "pd_id pd" m] by (auto simp: wants_on_def)
    ultimately have nz: "PDType_val (pd_id pd) AND (m AND domain_ids (domains s)) \<noteq> 0"
      by (simp add: and.assoc[symmetric])
    have "PDType_val (pd_id pd) AND (m AND domain_ids (domains s)) =
            (PDType_val (pd_id pd) AND (powerState s OR (m AND domain_ids (domains s))))
              AND (m AND domain_ids (domains s))"
      by (intro bit_eqI) (auto simp: bit_and_iff bit_or_iff)
    with nz show ?thesis
      unfolding powered_def by (metis zero_and_eq)
  qed
  show ?thesis
    by (simp add: Activate_eq[OF d] fold_PowerSubscriber_ctor live)
qed

theorem Activate_spec_witness:
  "distinct (map pd_id (domains powerman_test)) \<and>
   fst (Activate powerman_test 7) \<and>
   powerState (snd (Activate powerman_test 7)) = 7 \<and>
   trace (snd (Activate powerman_test 7)) =
     [Call_SetPower pwr4_CPU True, Call_SetPower pwr4_SD True, Call_SetPower pwr4_Booster True]
     @ map (\<lambda>ps. Call_PwrOn (ps_name ps))
         (filter (IsOn (powerState (snd (Activate powerman_test 7)))) [testSubscriber2, testSubscriber1])"
proof -
  note r = Activate_spec [OF powerman_test_distinct, of 7 "[]"]
  from r have "fst (Activate powerman_test 7) =
      (\<exists>pd\<in>set (domains powerman_test). wants_on 7 (powerState powerman_test) pd)"
    by blast
  then have r1: "fst (Activate powerman_test 7)"
    by (simp add: powerman_test_eq wants_on_def powered_def example_defs)
  from r have "powerState (snd (Activate powerman_test 7)) =
      powerState powerman_test OR (7 AND domain_ids (domains powerman_test))"
    by blast
  then have r2: "powerState (snd (Activate powerman_test 7)) = 7"
    by (simp add: powerman_test_eq example_defs)
  from r have "trace (snd (Activate powerman_test 7)) =
       trace powerman_test
       @ map (\<lambda>pd. Call_SetPower (pd_id pd) True)
           (filter (wants_on 7 (powerState powerman_test)) (domains powerman_test))
       @ (if fst (Activate powerman_test 7)
          then map (\<lambda>ps. Call_PwrOn (ps_name ps))
                 (filter (IsOn (powerState (snd (Activate powerman_test 7)))) (subscribers powerman_test))
          else [])"
    by blast
  with r1 have r3: "trace (snd (Activate powerman_test 7)) =
     [Call_SetPower pwr4_CPU True, Call_SetPower pwr4_SD True, Call_SetPower pwr4_Booster True]
     @ map (\<lambda>ps. Call_PwrOn (ps_name ps))
         (filter (IsOn (powerState (snd (Activate powerman_test 7)))) [testSubscriber2, testSubscriber1])"
    by (simp add: powerman_test_eq wants_on_def powered_def example_defs)
  from powerman_test_distinct r1 r2 r3 show ?thesis by blast
qed

text \<open>
  The claim as written fails twice on the example. \<^verbatim>\<open>TestS1\<close> is registered before
  \<^verbatim>\<open>TestS2\<close>, yet the first activation calls \<^verbatim>\<open>TestS2\<close> first. A second activation
  with the same mask finds nothing to switch on and calls nobody, although
  \<^verbatim>\<open>IsOn()\<close> holds for both subscribers.
\<close>

theorem Activate_callbacks_counterexample:
  "powerman_test = fold PowerSubscriber_ctor [testSubscriber1, testSubscriber2] powerman_static \<and>
   trace (snd (Activate powerman_test 7)) =
     [Call_SetPower pwr4_CPU True, Call_SetPower pwr4_SD True, Call_SetPower pwr4_Booster True,
      Call_PwrOn ''TestS2'', Call_PwrOn ''TestS1''] \<and>
   IsOn (powerState powerman_test_on) testSubscriber1 \<and>
   IsOn (powerState powerman_test_on) testSubscriber2 \<and>
   Activate powerman_test_on 7 = (False, powerman_test_on)"
proof -
  have "Activate powerman_test_on 7 = (False, powerman_test_on)"
    by (subst Activate_eq[OF powerman_test_on_distinct])
       (simp add: powerman_test_on_eq wants_on_def powered_def example_defs)
  moreover have "IsOn (powerState powerman_test_on) testSubscriber1"
    and "IsOn (powerState powerman_test_on) testSubscriber2"
    by (simp_all add: powerman_test_on_eq IsOn_def example_defs)
  ultimately show ?thesis
    by (simp add: Activate_test_7) (simp add: powerman_test_def)
qed




section \<open>C6: the guard against a delayed loop\<close>

text \<open>
  C6, as the code has it. The guard compares the elapsed time with
  \<^verbatim>\<open>PWRMAN_MINTIMEOUT\<close> (20 ms, twice the nominal poll period of 10 ms): a call of
  \<^verbatim>\<open>Loop()\<close> that measures 20 ms or more since the previous call records the time and
  does nothing else: no timer, no bit of the power state, no callback, no
  \<^verbatim>\<open>SetPower\<close>.
\<close>

theorem Loop_jitter_guard:
  "PWRMAN_MINTIMEOUT \<le> timeNow - lastLoopTime s \<Longrightarrow>
   Loop s timeNow irq = (if domains s = [] then s else s\<lparr>lastLoopTime := timeNow\<rparr>)"
  by (simp add: Loop_def Let_def)

theorem Loop_jitter_guard_witness:
  "PWRMAN_MINTIMEOUT \<le> 25 - lastLoopTime powerman_test_on \<and>
   Loop powerman_test_on 25 IRQ_BTN = powerman_test_on\<lparr>lastLoopTime := 25\<rparr>"
proof -
  have h: "PWRMAN_MINTIMEOUT \<le> 25 - lastLoopTime powerman_test_on"
    by (simp add: powerman_test_on_eq PWRMAN_MINTIMEOUT_def)
  have n: "domains powerman_test_on \<noteq> []"
    by (simp add: powerman_test_on_eq)
  from Loop_jitter_guard [OF h, of IRQ_BTN] n h show ?thesis
    by simp
qed

text \<open>
  A call 15 ms after the previous one has an elapsed time above the nominal poll period
  of 10 ms, and it does run down the timers of the three active domains.
\<close>

theorem Loop_jitter_counterexample:
  "poll_period_ms < 15 - lastLoopTime powerman_test_on \<and>
   map countdownTimer (domains powerman_test_on) = [60000, 1000, 1000, 0, 0] \<and>
   map countdownTimer (domains (Loop powerman_test_on 15 IRQ_BTN)) = [59985, 985, 985, 0, 0]"
  by (simp add: powerman_test_on_eq Loop_def Let_def heldDomains_def Loop_check_body_def
      CheckTimeout_def poll_period_ms_def PWRMAN_TIMEOUTRES_def example_defs)


section \<open>C10: timeouts handed to a power request\<close>

lemma case_option_prod_None:
  "((case X of None \<Rightarrow> None | Some (a, b) \<Rightarrow> Some (f a b)) = None) = (X = None)"
  by (cases X) auto

lemma RequestPower_domains_None:
  "(RequestPower_domains sub (Some ts) pds st tr r = None) =
     (length ts < length (filter (subscribed sub) pds))"
proof (induction pds arbitrary: ts st tr r)
  case Nil
  show ?case by simp
next
  case (Cons p pds)
  show ?case
    by (cases ts) (simp_all add: case_option_prod_None Cons.IH subscribed_def SetPower_def)
qed

lemma RequestPower_domains_timer:
  "RequestPower_domains sub (Some ts) pds st tr r = Some (pds', x) \<Longrightarrow>
   length pds' = length pds \<and>
   (\<forall>i<length pds. countdownTimer (pds' ! i) =
      (if subscribed sub (pds ! i)
       then countdownTimer (ResetTimeout (pds ! i) (ts ! length (filter (subscribed sub) (take i pds))))
       else countdownTimer (pds ! i)))"
proof (induction pds arbitrary: ts st tr r pds' x)
  case Nil
  then show ?case by simp
next
  case (Cons p pds)
  show ?case
  proof (cases "subscribed sub p")
    case False
    with Cons.prems obtain qs where
      q: "RequestPower_domains sub (Some ts) pds st tr r = Some (qs, x)" and p: "pds' = p # qs"
      by (auto simp: subscribed_def split: option.splits)
    from Cons.IH[OF q] p False show ?thesis
      by (auto simp: nth_Cons split: nat.splits)
  next
    case True
    with Cons.prems obtain t ts' where ts: "ts = t # ts'"
      by (cases ts) (auto simp: subscribed_def)
    with True Cons.prems obtain q qs st' tr' r' where
      q: "RequestPower_domains sub (Some ts') pds st' tr' r' = Some (qs, x)" and p: "pds' = q # qs"
      and t: "countdownTimer q = countdownTimer (ResetTimeout p t)"
      by (auto simp: subscribed_def SetPower_def split: option.splits if_splits)
    from Cons.IH[OF q] p t ts True show ?thesis
      by (auto simp: nth_Cons split: nat.splits)
  qed
qed

lemma ResetTimeout_zero: "ResetTimeout pd 0 = ResetTimeout pd (pd_timeout pd)"
  by (simp add: ResetTimeout_def)

lemma RequestPower_test:
  "RequestPower powerman_test testSubscriber2 (Some [100, 0]) =
     Some (True,
       \<lparr>domains = [pwrdom_cpu\<lparr>countdownTimer := 100, actuator := Some True\<rparr>,
                   pwrdom_sd\<lparr>countdownTimer := 1000, actuator := Some True\<rparr>,
                   pwrdom_boost, pwrdom_amp, pwrdom_pixel],
        subscribers = [testSubscriber2, testSubscriber1],
        wakeUpSource = wakeUp_none, powerState = 3, lastLoopTime = 0,
        trace = [Call_SetPower pwr4_CPU True, Call_SetPower pwr4_SD True, Call_PwrOn ''TestS2'']\<rparr>)"
  by (simp add: RequestPower_def powerman_test_eq ResetTimeout_def SetPower_def PwrOn_Callback_def
      example_defs)

text \<open>
  C10. With a vector \<open>ts\<close> of timeouts, \<^verbatim>\<open>RequestPower\<close> hands \<open>ts\<close> out to the
  subscribed domains in the order of the domain list: the subscribed domain at position
  \<open>i\<close> of the list gets the entry whose index is the number of subscribed domains in
  front of it. (A vector with fewer entries than subscribed domains is read past its
  end, which is the only way the call fails.) An entry of 0 acts as the domain's own
  timeout. The list is in reverse order of construction, since each constructor links
  its domain in front.
\<close>

theorem RequestPower_timeout_order:
  "(domains s \<noteq> [] \<longrightarrow>
      (RequestPower s ps (Some ts) = None) =
        (length ts < length (filter (subscribed (subscribedDomains ps)) (domains s)))) \<and>
   (RequestPower s ps (Some ts) = Some (r, s') \<longrightarrow>
      length (domains s') = length (domains s) \<and>
      (\<forall>i<length (domains s).
         countdownTimer (domains s' ! i) =
           (if subscribed (subscribedDomains ps) (domains s ! i)
            then countdownTimer
                   (ResetTimeout (domains s ! i)
                      (ts ! length (filter (subscribed (subscribedDomains ps)) (take i (domains s)))))
            else countdownTimer (domains s ! i)))) \<and>
   ResetTimeout pd 0 = ResetTimeout pd (pd_timeout pd) \<and>
   countdownTimer (ResetTimeout pd 0) =
     max (countdownTimer pd) (max PWRMAN_MINTIMEOUT (pd_timeout pd)) \<and>
   domains (fold PowerDomain_ctor pds s0) =
     rev (map (\<lambda>pd. pd\<lparr>countdownTimer := 0, actuator := None\<rparr>) pds) @ domains s0"
proof (intro conjI impI)
  assume "domains s \<noteq> []"
  then show "(RequestPower s ps (Some ts) = None) =
        (length ts < length (filter (subscribed (subscribedDomains ps)) (domains s)))"
    using RequestPower_domains_None[of "subscribedDomains ps" ts "domains s" "powerState s" "trace s" False]
    by (auto simp: RequestPower_def split: option.splits)
next
  assume a: "RequestPower s ps (Some ts) = Some (r, s')"
  show "length (domains s') = length (domains s)"
    and "\<forall>i<length (domains s).
         countdownTimer (domains s' ! i) =
           (if subscribed (subscribedDomains ps) (domains s ! i)
            then countdownTimer
                   (ResetTimeout (domains s ! i)
                      (ts ! length (filter (subscribed (subscribedDomains ps)) (take i (domains s)))))
            else countdownTimer (domains s ! i))"
  proof -
    show "length (domains s') = length (domains s)"
    proof (cases "domains s = []")
      case True
      with a show ?thesis by (simp add: RequestPower_def)
    next
      case False
      with a obtain x where
        "RequestPower_domains (subscribedDomains ps) (Some ts) (domains s) (powerState s) (trace s) False
           = Some (domains s', x)"
        by (auto simp: RequestPower_def split: option.splits)
      from RequestPower_domains_timer[OF this] show ?thesis by simp
    qed
    show "\<forall>i<length (domains s).
         countdownTimer (domains s' ! i) =
           (if subscribed (subscribedDomains ps) (domains s ! i)
            then countdownTimer
                   (ResetTimeout (domains s ! i)
                      (ts ! length (filter (subscribed (subscribedDomains ps)) (take i (domains s)))))
            else countdownTimer (domains s ! i))"
    proof (cases "domains s = []")
      case True
      then show ?thesis by simp
    next
      case False
      with a obtain x where
        "RequestPower_domains (subscribedDomains ps) (Some ts) (domains s) (powerState s) (trace s) False
           = Some (domains s', x)"
        by (auto simp: RequestPower_def split: option.splits)
      from RequestPower_domains_timer[OF this] show ?thesis by simp
    qed
  qed
next
  show "ResetTimeout pd 0 = ResetTimeout pd (pd_timeout pd)"
    by (rule ResetTimeout_zero)
  show "countdownTimer (ResetTimeout pd 0) =
     max (countdownTimer pd) (max PWRMAN_MINTIMEOUT (pd_timeout pd))"
    by (simp add: ResetTimeout_timer clamp_spec_def)
  show "domains (fold PowerDomain_ctor pds s0) =
     rev (map (\<lambda>pd. pd\<lparr>countdownTimer := 0, actuator := None\<rparr>) pds) @ domains s0"
    by (rule fold_PowerDomain_ctor)
qed

theorem RequestPower_timeout_order_witness:
  "domains powerman_test = [pwrdom_cpu, pwrdom_sd, pwrdom_boost, pwrdom_amp, pwrdom_pixel] \<and>
   (\<exists>r s'. RequestPower powerman_test testSubscriber2 (Some [100, 0]) = Some (r, s') \<and>
      countdownTimer (domains s' ! 0) = 100 \<and>
      countdownTimer (domains s' ! 1) = 1000 \<and>
      countdownTimer (domains s' ! 2) = 0)"
proof -
  obtain s' where e: "RequestPower powerman_test testSubscriber2 (Some [100, 0]) = Some (True, s')"
    using RequestPower_test by simp
  have n: "domains powerman_test \<noteq> []"
    by (simp add: powerman_test_eq)
  from RequestPower_timeout_order [of powerman_test testSubscriber2 "[100, 0]" True s'] e n
  have all: "\<forall>i<length (domains powerman_test).
         countdownTimer (domains s' ! i) =
           (if subscribed (subscribedDomains testSubscriber2) (domains powerman_test ! i)
            then countdownTimer
                   (ResetTimeout (domains powerman_test ! i)
                      ([100, 0] ! length (filter (subscribed (subscribedDomains testSubscriber2))
                                           (take i (domains powerman_test)))))
            else countdownTimer (domains powerman_test ! i))"
    by blast
  have r0: "countdownTimer (domains s' ! 0) = 100"
    using all[rule_format, of 0]
    by (simp add: powerman_test_eq subscribed_def ResetTimeout_def example_defs)
  have r1: "countdownTimer (domains s' ! 1) = 1000"
    using all[rule_format, of 1]
    by (simp add: powerman_test_eq subscribed_def ResetTimeout_def example_defs)
  have r2: "countdownTimer (domains s' ! 2) = 0"
    using all[rule_format, of 2]
    by (simp add: powerman_test_eq subscribed_def example_defs)
  have d: "domains powerman_test = [pwrdom_cpu, pwrdom_sd, pwrdom_boost, pwrdom_amp, pwrdom_pixel]"
    by (simp add: powerman_test_eq)
  from d e r0 r1 r2 show ?thesis
    by blast
qed


section \<open>The steps of the arbitration loop\<close>

lemma CheckTimeout_fields [simp]:
  "pd_id (fst (CheckTimeout pd lt)) = pd_id pd"
  "pd_name (fst (CheckTimeout pd lt)) = pd_name pd"
  "pd_timeout (fst (CheckTimeout pd lt)) = pd_timeout pd"
  "actuator (fst (CheckTimeout pd lt)) = actuator pd"
  by (simp_all add: CheckTimeout_def)

lemma Loop_check_body_eq:
  "Loop_check_body st dtc lt pd nxt =
     (if PDType_val (pd_id pd) AND st AND dtc \<noteq> 0
      then (fst (CheckTimeout pd lt),
            if snd (CheckTimeout pd lt) then nxt AND NOT (PDType_val (pd_id pd)) else nxt)
      else (pd, nxt))"
  by (simp add: Loop_check_body_def split: prod.splits)

lemma andnot_andnot: "((n::'a::len word) AND NOT a) AND NOT b = n AND NOT (a OR b)"
  by (rule bit_eqI) (auto simp: bit_simps)

lemma Loop_check_eq:
  "for_domains (Loop_check_body st dtc lt) pds nxt =
     (map (\<lambda>pd. if PDType_val (pd_id pd) AND st AND dtc \<noteq> 0 then fst (CheckTimeout pd lt) else pd) pds,
      nxt AND NOT (expired_ids st dtc lt pds))"
  by (induction pds arbitrary: nxt) (simp_all add: Loop_check_body_eq andnot_andnot)

lemma expired_ids_sub: "expired_ids st dtc lt pds AND domain_ids pds = expired_ids st dtc lt pds"
proof (induction pds)
  case Nil
  show ?case by simp
next
  case (Cons p pds)
  then show ?case
    by (auto intro!: bit_eqI simp: bit_and_iff bit_or_iff) (metis bit_and_iff)+
qed

lemma expired_ids_sub_st: "expired_ids st dtc lt pds AND st = expired_ids st dtc lt pds"
proof (induction pds)
  case Nil
  show ?case by simp
next
  case (Cons p pds)
  show ?case
  proof (cases "PDType_val (pd_id p) AND st AND dtc \<noteq> 0 \<and> snd (CheckTimeout p lt)")
    case True
    then have "(PDType_val (pd_id p) AND st) AND dtc \<noteq> 0" by (simp add: and.assoc)
    then have "PDType_val (pd_id p) AND st \<noteq> 0" by auto
    then have "PDType_val (pd_id p) AND st = PDType_val (pd_id p)" by (rule PDType_val_single)
    with Cons True show ?thesis
      by (simp add: bit.conj_disj_distrib2)
  next
    case False
    with Cons show ?thesis by auto
  qed
qed

lemma Loop_off_body_eq:
  "Loop_off_body nxt pd (st, tr) =
     (if PDType_val (pd_id pd) AND st \<noteq> 0 \<and> PDType_val (pd_id pd) AND NOT nxt \<noteq> 0
      then (pd\<lparr>actuator := Some False\<rparr>, st AND NOT (PDType_val (pd_id pd)),
            tr @ [Call_SetPower (pd_id pd) False])
      else (pd, st, tr))"
  by (simp add: Loop_off_body_def SetPower_def)

lemma Loop_off_state:
  "for_domains (Loop_off_body nxt) pds (st, tr) = (pds', st', tr') \<Longrightarrow>
   st' = st AND NOT (domain_ids pds AND NOT nxt)"
proof (induction pds arbitrary: st tr pds' st' tr')
  case Nil
  then show ?case by simp
next
  case (Cons p pds)
  show ?case
  proof (cases "PDType_val (pd_id p) AND st \<noteq> 0 \<and> PDType_val (pd_id p) AND NOT nxt \<noteq> 0")
    case True
    then have e: "PDType_val (pd_id p) AND NOT nxt = PDType_val (pd_id p)"
      using PDType_val_single by blast
    have b: "(st AND NOT (PDType_val (pd_id p))) AND NOT (domain_ids pds AND NOT nxt) =
          st AND NOT ((PDType_val (pd_id p) OR domain_ids pds) AND NOT nxt)"
      using e by (intro bit_eqI) (auto simp: bit_and_iff bit_or_iff bit_not_iff, metis bit_and_iff bit_not_iff)
    from Cons.prems True obtain qs where
      "for_domains (Loop_off_body nxt) pds
         (st AND NOT (PDType_val (pd_id p)), tr @ [Call_SetPower (pd_id p) False]) = (qs, st', tr')"
      by (auto simp: Loop_off_body_eq split: prod.splits)
    from Cons.IH[OF this] b show ?thesis by simp
  next
    case False
    then have b: "st AND NOT ((PDType_val (pd_id p) OR domain_ids pds) AND NOT nxt) =
               st AND NOT (domain_ids pds AND NOT nxt)"
      by (intro bit_eqI) (auto simp: bit_and_iff bit_or_iff bit_not_iff bit_eq_iff)
    from Cons.prems False obtain qs where
      "for_domains (Loop_off_body nxt) pds (st, tr) = (qs, st', tr')"
      by (auto simp: Loop_off_body_eq split: prod.splits)
    from Cons.IH[OF this] b show ?thesis by simp
  qed
qed

lemma off_state_next:
  assumes "(E::'a::len word) AND ids = E"
  shows "st AND NOT (ids AND NOT (st AND NOT E)) = st AND NOT E"
  using assms by (intro bit_eqI) (auto simp: bit_and_iff bit_or_iff bit_not_iff, metis bit_and_iff)


lemma domain_ids_map:
  "(\<And>pd. pd_id (f pd) = pd_id pd) \<Longrightarrow> domain_ids (map f pds) = domain_ids pds"
  by (induction pds) simp_all

lemma nextPowerState_eq:
  "nextPowerState s lt =
     powerState s AND NOT (expired_ids (powerState s) (NOT (heldDomains (subscribers s))) lt (domains s))"
  by (simp add: nextPowerState_def Loop_check_eq)

lemma Loop_callbacks_eq:
  "Loop_callbacks st nxt subs tr =
     tr @ map (\<lambda>ps. Call_PwrOff (ps_name ps)) (filter (\<lambda>ps. IsOn st ps \<and> \<not> IsOn nxt ps) subs)"
  by (induction subs arbitrary: tr)
     (simp_all add: Loop_callbacks_def PwrOff_Callback_def IsOn_def and.commute)

lemma Loop_off_trace:
  "for_domains (Loop_off_body nxt) pds (st, tr) = (pds', st', tr') \<Longrightarrow>
   \<exists>offs. tr' = tr @ offs \<and> (\<forall>e\<in>set offs. is_power_off e) \<and> (offs = [] \<longrightarrow> st' = st)"
proof (induction pds arbitrary: st tr pds' st' tr')
  case Nil
  then show ?case by simp
next
  case (Cons p pds)
  show ?case
  proof (cases "PDType_val (pd_id p) AND st \<noteq> 0 \<and> PDType_val (pd_id p) AND NOT nxt \<noteq> 0")
    case True
    with Cons.prems obtain qs where
      "for_domains (Loop_off_body nxt) pds
         (st AND NOT (PDType_val (pd_id p)), tr @ [Call_SetPower (pd_id p) False]) = (qs, st', tr')"
      by (auto simp: Loop_off_body_eq split: prod.splits)
    from Cons.IH[OF this] obtain offs where
      "tr' = (tr @ [Call_SetPower (pd_id p) False]) @ offs" "\<forall>e\<in>set offs. is_power_off e"
      by blast
    then show ?thesis
      by (intro exI[of _ "Call_SetPower (pd_id p) False # offs"]) simp
  next
    case False
    with Cons.prems obtain qs where
      "for_domains (Loop_off_body nxt) pds (st, tr) = (qs, st', tr')"
      by (auto simp: Loop_off_body_eq split: prod.splits)
    from Cons.IH[OF this] show ?thesis .
  qed
qed

lemma Activate_loop_trace:
  "for_domains (Activate_body m) pds (st, tr, r) = (pds', st', tr', r') \<Longrightarrow>
   \<exists>ons. tr' = tr @ ons \<and> (\<forall>e\<in>set ons. is_power_on e)"
proof (induction pds arbitrary: st tr r pds' st' tr' r')
  case Nil
  then show ?case by simp
next
  case (Cons p pds)
  show ?case
  proof (cases "wants_on m st p")
    case True
    with Cons.prems obtain qs where
      "for_domains (Activate_body m) pds
         (st OR PDType_val (pd_id p), tr @ [Call_SetPower (pd_id p) True], True) = (qs, st', tr', r')"
      by (auto simp: Activate_body_eq split: prod.splits)
    from Cons.IH[OF this] obtain ons where
      "tr' = (tr @ [Call_SetPower (pd_id p) True]) @ ons" "\<forall>e\<in>set ons. is_power_on e"
      by blast
    then show ?thesis
      by (intro exI[of _ "Call_SetPower (pd_id p) True # ons"]) simp
  next
    case False
    with Cons.prems obtain qs where
      "for_domains (Activate_body m) pds (st, tr, r) = (qs, st', tr', r')"
      by (auto simp: Activate_body_eq split: prod.splits)
    from Cons.IH[OF this] show ?thesis .
  qed
qed

lemma Activate_trace:
  "\<exists>evs. trace (snd (Activate s m)) = trace s @ evs \<and>
         (\<forall>e\<in>set evs. is_power_on e \<or> is_on_callback e)"
proof (cases "domains s = []")
  case True
  then show ?thesis by (simp add: Activate_def)
next
  case False
  obtain pds' st' tr' r' where
    f: "for_domains (Activate_body m) (domains s) (powerState s, trace s, False) = (pds', st', tr', r')"
    by (metis prod_cases4)
  from Activate_loop_trace[OF f] obtain ons where
    ons: "tr' = trace s @ ons" "\<forall>e\<in>set ons. is_power_on e" by blast
  show ?thesis
  proof (cases "subscribers s = [] \<or> \<not> r'")
    case True
    with False f ons show ?thesis
      by (intro exI[of _ ons]) (auto simp: Activate_def)
  next
    case c: False
    with False f ons show ?thesis
      by (intro exI[of _ "ons @ map (\<lambda>ps. Call_PwrOn (ps_name ps)) (filter (IsOn st') (subscribers s))"])
         (auto simp: Activate_def foldl_PwrOn)
  qed
qed

lemma checked_domains_eq:
  "checked_domains s lt =
     map (\<lambda>pd. if PDType_val (pd_id pd) AND powerState s AND NOT (heldDomains (subscribers s)) \<noteq> 0
               then fst (CheckTimeout pd lt) else pd) (domains s)"
  by (simp add: checked_domains_def Loop_check_eq)

lemma Loop_check_pair:
  "for_domains (Loop_check_body (powerState s) (NOT (heldDomains (subscribers s))) lt)
     (domains s) (powerState s) = (checked_domains s lt, nextPowerState s lt)"
  by (simp add: checked_domains_def nextPowerState_def)

lemma Loop_no_transition:
  assumes "domains s \<noteq> []" "timeNow - lastLoopTime s < PWRMAN_MINTIMEOUT"
    and "nextPowerState s (timeNow - lastLoopTime s) = powerState s"
  shows "Loop s timeNow irq =
           s\<lparr>lastLoopTime := timeNow, domains := checked_domains s (timeNow - lastLoopTime s)\<rparr>"
  using assms unfolding Loop_def Let_def
  by (simp add: Loop_check_pair not_le)

lemma Loop_transition:
  assumes "domains s \<noteq> []" "timeNow - lastLoopTime s < PWRMAN_MINTIMEOUT"
    and "nextPowerState s (timeNow - lastLoopTime s) \<noteq> powerState s"
    and off: "for_domains (Loop_off_body (nextPowerState s (timeNow - lastLoopTime s)))
            (checked_domains s (timeNow - lastLoopTime s))
            (powerState s,
             Loop_callbacks (powerState s) (nextPowerState s (timeNow - lastLoopTime s))
               (subscribers s) (trace s)) = (pds', st', tr')"
  shows "st' = nextPowerState s (timeNow - lastLoopTime s)"
    and "Loop s timeNow irq =
       (if st' \<noteq> 0
        then s\<lparr>lastLoopTime := timeNow, domains := pds', powerState := st', trace := tr'\<rparr>
        else snd (Activate
               (CPU_DeepSleep
                  (s\<lparr>lastLoopTime := timeNow, domains := pds', powerState := st', trace := tr'\<rparr>)
                  irq) PWRMAN_STARTON))"
proof -
  have ids: "domain_ids (checked_domains s (timeNow - lastLoopTime s)) = domain_ids (domains s)"
    unfolding checked_domains_eq by (rule domain_ids_map) simp
  show "st' = nextPowerState s (timeNow - lastLoopTime s)"
    using Loop_off_state[OF off] off_state_next[OF expired_ids_sub]
    by (simp add: ids nextPowerState_eq)
  show "Loop s timeNow irq =
       (if st' \<noteq> 0
        then s\<lparr>lastLoopTime := timeNow, domains := pds', powerState := st', trace := tr'\<rparr>
        else snd (Activate
               (CPU_DeepSleep
                  (s\<lparr>lastLoopTime := timeNow, domains := pds', powerState := st', trace := tr'\<rparr>)
                  irq) PWRMAN_STARTON))"
    using assms(1-3) unfolding Loop_def Let_def
    by (simp add: Loop_check_pair off not_le)
qed


lemma powerman_low_eq:
  "powerman_low =
      \<lparr>domains = [pwrdom_cpu\<lparr>countdownTimer := 59000, actuator := Some True\<rparr>,
                  pwrdom_sd\<lparr>countdownTimer := 500, actuator := Some True\<rparr>,
                  pwrdom_boost\<lparr>countdownTimer := 10, actuator := Some True\<rparr>,
                  pwrdom_amp, pwrdom_pixel],
       subscribers = [testSubscriber2, testSubscriber1],
       wakeUpSource = wakeUp_none, powerState = 7, lastLoopTime = 0,
       trace = [Call_SetPower pwr4_CPU True, Call_SetPower pwr4_SD True,
                Call_SetPower pwr4_Booster True, Call_PwrOn ''TestS2'', Call_PwrOn ''TestS1'']\<rparr>"
  by (simp add: powerman_low_def powerman_test_on_eq)

lemmas Loop_eval_defs =
  Loop_def Let_def heldDomains_def Loop_check_body_def CheckTimeout_def Loop_callbacks_def
  Loop_off_body_def SetPower_def PwrOff_Callback_def PwrOn_Callback_def Activate_def
  Activate_body_def ResetTimeout_def CPU_DeepSleep_def CPU_DeepSleep_entry_def CPU_DeepSleep_wait_def
  pwrWakeUp_BTN_def pwrWakeUp_SER_def IsOn_def

lemma Loop_low_10:
  "Loop powerman_low 10 IRQ_BTN =
      \<lparr>domains = [pwrdom_cpu\<lparr>countdownTimer := 58990, actuator := Some True\<rparr>,
                  pwrdom_sd\<lparr>countdownTimer := 490, actuator := Some True\<rparr>,
                  pwrdom_boost\<lparr>countdownTimer := 0, actuator := Some False\<rparr>,
                  pwrdom_amp, pwrdom_pixel],
       subscribers = [testSubscriber2, testSubscriber1],
       wakeUpSource = wakeUp_none, powerState = 3, lastLoopTime = 10,
       trace = [Call_SetPower pwr4_CPU True, Call_SetPower pwr4_SD True,
                Call_SetPower pwr4_Booster True, Call_PwrOn ''TestS2'', Call_PwrOn ''TestS1'',
                Call_PwrOff ''TestS1'', Call_SetPower pwr4_Booster False]\<rparr>"
  by (simp add: powerman_low_eq Loop_eval_defs example_defs)

lemma nextPowerState_low: "nextPowerState powerman_low 10 = 3"
  by (simp add: powerman_low_eq nextPowerState_def Loop_eval_defs example_defs)

section \<open>C2: off callbacks come before the power goes off\<close>

text \<open>
  C2. In a call of \<^verbatim>\<open>Loop()\<close> that is not skipped and marks a next state different from
  the live one, the calls made are, in this order: one \<^verbatim>\<open>PwrOff_Callback\<close> for each
  subscriber (in list order) whose mask is satisfied by the live state and not by the next
  state, and for no other subscriber; then the \<^verbatim>\<open>SetPower(false)\<close> calls, at least
  one; then whatever follows (the sleep transition and the activation after it), which
  contains neither an off callback nor a \<^verbatim>\<open>SetPower(false)\<close>.
\<close>

theorem Loop_off_callbacks_first:
  assumes "domains s \<noteq> []" "timeNow - lastLoopTime s < PWRMAN_MINTIMEOUT"
    and "nextPowerState s (timeNow - lastLoopTime s) \<noteq> powerState s"
  shows "\<exists>offs rest.
     trace (Loop s timeNow irq) =
       trace s
       @ map (\<lambda>ps. Call_PwrOff (ps_name ps))
           (filter (\<lambda>ps. IsOn (powerState s) ps \<and>
                          \<not> IsOn (nextPowerState s (timeNow - lastLoopTime s)) ps) (subscribers s))
       @ offs @ rest \<and>
     offs \<noteq> [] \<and> (\<forall>e\<in>set offs. is_power_off e) \<and>
     (\<forall>e\<in>set rest. \<not> is_power_off e \<and> \<not> is_off_callback e)"
proof -
  let ?lt = "timeNow - lastLoopTime s"
  let ?nxt = "nextPowerState s ?lt"
  let ?cbs = "map (\<lambda>ps. Call_PwrOff (ps_name ps))
           (filter (\<lambda>ps. IsOn (powerState s) ps \<and> \<not> IsOn ?nxt ps) (subscribers s))"
  obtain pds' st' tr' where
    off: "for_domains (Loop_off_body ?nxt) (checked_domains s ?lt)
            (powerState s, Loop_callbacks (powerState s) ?nxt (subscribers s) (trace s))
          = (pds', st', tr')"
    by (metis prod_cases3)
  note t = Loop_transition[OF assms off]
  from Loop_off_trace[OF off] obtain offs where
    offs: "tr' = (trace s @ ?cbs) @ offs" "\<forall>e\<in>set offs. is_power_off e"
      "offs = [] \<longrightarrow> st' = powerState s"
    by (auto simp: Loop_callbacks_eq)
  from offs(3) t(1) assms(3) have ne: "offs \<noteq> []" by auto
  let ?s1 = "s\<lparr>lastLoopTime := timeNow, domains := pds', powerState := st', trace := tr'\<rparr>"
  show ?thesis
  proof (cases "st' \<noteq> 0")
    case True
    with t(2) offs ne show ?thesis
      by (intro exI[of _ offs] exI[of _ "[]"]) simp
  next
    case False
    obtain evs where evs:
      "trace (snd (Activate (CPU_DeepSleep ?s1 irq) PWRMAN_STARTON)) =
         trace (CPU_DeepSleep ?s1 irq) @ evs"
      "\<forall>e\<in>set evs. is_power_on e \<or> is_on_callback e"
      using Activate_trace by blast
    have tr: "trace (CPU_DeepSleep ?s1 irq) = tr' @ [Enter_DeepSleep, Wait_For_Interrupt wakeUp_none]"
      by (cases irq)
         (simp_all add: CPU_DeepSleep_def CPU_DeepSleep_entry_def CPU_DeepSleep_wait_def
            pwrWakeUp_BTN_def pwrWakeUp_SER_def)
    have r: "\<forall>e\<in>set (Enter_DeepSleep # Wait_For_Interrupt wakeUp_none # evs).
               \<not> is_power_off e \<and> \<not> is_off_callback e"
    proof
      fix e assume "e \<in> set (Enter_DeepSleep # Wait_For_Interrupt wakeUp_none # evs)"
      with evs(2) show "\<not> is_power_off e \<and> \<not> is_off_callback e"
        by (cases e) auto
    qed
    from False t(2) offs ne evs(1) tr r show ?thesis
      by (intro exI[of _ offs] exI[of _ "Enter_DeepSleep # Wait_For_Interrupt wakeUp_none # evs"]) simp
  qed
qed

theorem Loop_off_callbacks_first_witness:
  "domains powerman_low \<noteq> [] \<and>
   10 - lastLoopTime powerman_low < PWRMAN_MINTIMEOUT \<and>
   nextPowerState powerman_low (10 - lastLoopTime powerman_low) \<noteq> powerState powerman_low \<and>
   (\<exists>offs rest.
      trace (Loop powerman_low 10 IRQ_BTN) =
        trace powerman_low @ [Call_PwrOff ''TestS1''] @ offs @ rest \<and>
      offs \<noteq> [] \<and> list_all is_power_off offs \<and>
      list_all (\<lambda>e. \<not> is_power_off e \<and> \<not> is_off_callback e) rest)"
proof -
  have h1: "domains powerman_low \<noteq> []"
    by (simp add: powerman_low_eq)
  have h2: "10 - lastLoopTime powerman_low < PWRMAN_MINTIMEOUT"
    by (simp add: powerman_low_eq PWRMAN_MINTIMEOUT_def)
  have l: "10 - lastLoopTime powerman_low = 10"
    by (simp add: powerman_low_eq)
  have h3: "nextPowerState powerman_low (10 - lastLoopTime powerman_low) \<noteq> powerState powerman_low"
    by (simp add: l nextPowerState_low) (simp add: powerman_low_eq)
  have f: "map (\<lambda>ps. Call_PwrOff (ps_name ps))
             (filter (\<lambda>ps. IsOn (powerState powerman_low) ps \<and>
                  \<not> IsOn (nextPowerState powerman_low (10 - lastLoopTime powerman_low)) ps)
                (subscribers powerman_low)) = [Call_PwrOff ''TestS1'']"
    by (simp add: l nextPowerState_low) (simp add: powerman_low_eq IsOn_def example_defs)
  from Loop_off_callbacks_first [OF h1 h2 h3, of IRQ_BTN] f h1 h2 h3 show ?thesis
    by (simp add: list_all_iff)
qed


section \<open>Hold\<close>

lemma heldDomains_foldl_bit:
  "bit (foldl (\<lambda>acc ps. if HoldPower ps then acc OR subscribedDomains ps else acc) acc subs) n =
     (bit acc n \<or> (\<exists>ps\<in>set subs. HoldPower ps \<and> bit (subscribedDomains ps) n))"
  by (induction subs arbitrary: acc) (auto simp: bit_or_iff)

lemma heldDomains_bit:
  "bit (heldDomains subs) n = (\<exists>ps\<in>set subs. HoldPower ps \<and> bit (subscribedDomains ps) n)"
  by (simp add: heldDomains_def heldDomains_foldl_bit)

lemma held_not_checked:
  assumes "ps \<in> set subs" "HoldPower ps" "subscribed (subscribedDomains ps) pd"
  shows "PDType_val (pd_id pd) AND st AND NOT (heldDomains subs) = 0"
proof -
  from assms(3) have "PDType_val (pd_id pd) AND subscribedDomains ps = PDType_val (pd_id pd)"
    using PDType_val_single by (simp add: subscribed_def)
  then have "\<And>n. bit (PDType_val (pd_id pd)) n \<Longrightarrow> bit (subscribedDomains ps) n"
    by (metis bit_and_iff)
  with assms(1,2) have "\<And>n. bit (PDType_val (pd_id pd)) n \<Longrightarrow> bit (heldDomains subs) n"
    by (auto simp: heldDomains_bit)
  then show ?thesis
    by (intro bit_eqI) (auto simp: bit_and_iff bit_not_iff)
qed

lemma expired_ids_disjoint:
  "PDType_val i AND st AND dtc = 0 \<Longrightarrow> PDType_val i AND expired_ids st dtc lt pds = 0"
proof (induction pds)
  case Nil
  show ?case by simp
next
  case (Cons p pds)
  show ?case
  proof (cases "PDType_val (pd_id p) AND st AND dtc \<noteq> 0 \<and> snd (CheckTimeout p lt)")
    case True
    with Cons.prems have "pd_id p \<noteq> i" by auto
    then have "PDType_val i AND PDType_val (pd_id p) = 0"
      by (intro PDType_val_disjoint) auto
    with True Cons show ?thesis
      by (simp add: bit.conj_disj_distrib)
  next
    case False
    with Cons show ?thesis by auto
  qed
qed

lemma powered_next_unchecked:
  "PDType_val (pd_id pd) AND powerState s AND NOT (heldDomains (subscribers s)) = 0 \<Longrightarrow>
   powered (nextPowerState s lt) pd = powered (powerState s) pd"
  using expired_ids_disjoint[of "pd_id pd" "powerState s" "NOT (heldDomains (subscribers s))" lt "domains s"]
  by (simp add: powered_def nextPowerState_eq and_andnot_disjoint)

lemma Loop_off_nth:
  "for_domains (Loop_off_body nxt) pds (st, tr) = (pds', st', tr') \<Longrightarrow>
   i < length pds \<Longrightarrow> PDType_val (pd_id (pds ! i)) AND NOT nxt = 0 \<Longrightarrow> pds' ! i = pds ! i"
proof (induction pds arbitrary: st tr pds' st' tr' i)
  case Nil
  then show ?case by simp
next
  case (Cons p pds)
  from Cons.prems(1) obtain q qs st1 tr1 where
    b: "Loop_off_body nxt p (st, tr) = (q, st1, tr1)"
    and r: "for_domains (Loop_off_body nxt) pds (st1, tr1) = (qs, st', tr')"
    and p: "pds' = q # qs"
    by (auto split: prod.splits)
  show ?case
  proof (cases i)
    case 0
    with Cons.prems(3) b p show ?thesis
      by (auto simp: Loop_off_body_eq split: if_splits)
  next
    case (Suc j)
    with Cons.prems Cons.IH[OF r, of j] p show ?thesis by simp
  qed
qed

lemma Activate_subscribers [simp]: "subscribers (snd (Activate s m)) = subscribers s"
  by (simp add: Activate_def split: prod.splits)

lemma CPU_DeepSleep_fields [simp]:
  "subscribers (CPU_DeepSleep s irq) = subscribers s"
  "domains (CPU_DeepSleep s irq) = domains s"
  "powerState (CPU_DeepSleep s irq) = powerState s"
  "lastLoopTime (CPU_DeepSleep s irq) = lastLoopTime s"
  "trace (CPU_DeepSleep s irq) = trace s @ [Enter_DeepSleep, Wait_For_Interrupt wakeUp_none]"
  "wakeUpSource (CPU_DeepSleep s irq) = (case irq of IRQ_BTN \<Rightarrow> wakeUp_button | IRQ_SER \<Rightarrow> wakeUp_serial)"
  by (cases irq; simp add: CPU_DeepSleep_def CPU_DeepSleep_entry_def CPU_DeepSleep_wait_def
        pwrWakeUp_BTN_def pwrWakeUp_SER_def)+

lemma Loop_next_state:
  assumes "domains s \<noteq> []" "timeNow - lastLoopTime s < PWRMAN_MINTIMEOUT"
    and "nextPowerState s (timeNow - lastLoopTime s) \<noteq> 0"
  shows "powerState (Loop s timeNow irq) = nextPowerState s (timeNow - lastLoopTime s)"
proof (cases "nextPowerState s (timeNow - lastLoopTime s) = powerState s")
  case True
  with assms show ?thesis by (simp add: Loop_no_transition)
next
  case False
  obtain pds' st' tr' where
    off: "for_domains (Loop_off_body (nextPowerState s (timeNow - lastLoopTime s)))
            (checked_domains s (timeNow - lastLoopTime s))
            (powerState s,
             Loop_callbacks (powerState s) (nextPowerState s (timeNow - lastLoopTime s))
               (subscribers s) (trace s)) = (pds', st', tr')"
    by (metis prod_cases3)
  from Loop_transition[OF assms(1,2) False off] assms(3) show ?thesis by simp
qed

lemma Loop_subscribers [simp]: "subscribers (Loop s timeNow irq) = subscribers s"
proof (cases "domains s \<noteq> [] \<and> timeNow - lastLoopTime s < PWRMAN_MINTIMEOUT")
  case False
  then show ?thesis by (auto simp: Loop_def Let_def not_less)
next
  case True
  show ?thesis
  proof (cases "nextPowerState s (timeNow - lastLoopTime s) = powerState s")
    case t: True
    with True show ?thesis by (simp add: Loop_no_transition)
  next
    case False
    obtain pds' st' tr' where
      off: "for_domains (Loop_off_body (nextPowerState s (timeNow - lastLoopTime s)))
            (checked_domains s (timeNow - lastLoopTime s))
            (powerState s,
             Loop_callbacks (powerState s) (nextPowerState s (timeNow - lastLoopTime s))
               (subscribers s) (trace s)) = (pds', st', tr')"
      by (metis prod_cases3)
    from True Loop_transition(2)[OF _ _ False off] show ?thesis by simp
  qed
qed

lemma Loop_hold:
  assumes ps: "ps \<in> set (subscribers s)" "HoldPower ps"
    and i: "i < length (domains s)"
    and sub: "subscribed (subscribedDomains ps) (domains s ! i)"
    and on: "powered (powerState s) (domains s ! i)"
  shows "domains (Loop s timeNow irq) ! i = domains s ! i"
    and "powered (powerState (Loop s timeNow irq)) (domains s ! i)"
    and "length (domains (Loop s timeNow irq)) = length (domains s)"
proof -
  let ?pd = "domains s ! i"
  let ?lt = "timeNow - lastLoopTime s"
  let ?nxt = "nextPowerState s ?lt"
  have ne: "domains s \<noteq> []" using i by auto
  have unch: "PDType_val (pd_id ?pd) AND powerState s AND NOT (heldDomains (subscribers s)) = 0"
    using held_not_checked[OF ps sub] .
  have c: "checked_domains s ?lt ! i = ?pd"
    using i unch by (simp add: checked_domains_eq)
  have lc: "length (checked_domains s ?lt) = length (domains s)"
    by (simp add: checked_domains_eq)
  have pn: "powered ?nxt ?pd"
    using powered_next_unchecked[OF unch] on by simp
  then have nz: "?nxt \<noteq> 0" by (auto simp: powered_def)
  have "domains (Loop s timeNow irq) ! i = ?pd \<and> powered (powerState (Loop s timeNow irq)) ?pd
        \<and> length (domains (Loop s timeNow irq)) = length (domains s)"
  proof (cases "?lt < PWRMAN_MINTIMEOUT")
    case False
    with ne on show ?thesis by (simp add: Loop_def Let_def not_less)
  next
    case lt: True
    show ?thesis
    proof (cases "?nxt = powerState s")
      case True
      with ne lt c lc on show ?thesis by (simp add: Loop_no_transition)
    next
      case False
      obtain pds' st' tr' where
        off: "for_domains (Loop_off_body ?nxt) (checked_domains s ?lt)
            (powerState s, Loop_callbacks (powerState s) ?nxt (subscribers s) (trace s))
            = (pds', st', tr')"
        by (metis prod_cases3)
      note t = Loop_transition[OF ne lt False off]
      from pn have "PDType_val (pd_id ?pd) AND ?nxt = PDType_val (pd_id ?pd)"
        using PDType_val_single by (simp add: powered_def)
      then have "PDType_val (pd_id (checked_domains s ?lt ! i)) AND NOT ?nxt = 0"
        unfolding c by (intro bit_eqI) (auto simp: bit_and_iff bit_not_iff, metis bit_and_iff)
      from Loop_off_nth[OF off _ this] i lc c have "pds' ! i = ?pd" by simp
      moreover from for_domains_length[OF off] lc have "length pds' = length (domains s)" by simp
      ultimately show ?thesis using t nz pn by simp
    qed
  qed
  then show "domains (Loop s timeNow irq) ! i = domains s ! i"
    and "powered (powerState (Loop s timeNow irq)) (domains s ! i)"
    and "length (domains (Loop s timeNow irq)) = length (domains s)"
    by simp_all
qed

lemma ticks_hold:
  assumes "ps \<in> set (subscribers s)" "HoldPower ps" "i < length (domains s)"
    and "subscribed (subscribedDomains ps) (domains s ! i)"
    and "powered (powerState s) (domains s ! i)"
  shows "domains (ticks s ds irq) ! i = domains s ! i \<and>
         powered (powerState (ticks s ds irq)) (domains s ! i)"
  using assms
proof (induction ds arbitrary: s)
  case Nil
  then show ?case by simp
next
  case (Cons d ds)
  note h = Loop_hold[OF Cons.prems, of "lastLoopTime s + d" irq]
  have "domains (ticks (tick s d irq) ds irq) ! i = domains (tick s d irq) ! i \<and>
        powered (powerState (ticks (tick s d irq) ds irq)) (domains (tick s d irq) ! i)"
    using Cons.prems h by (intro Cons.IH) (simp_all add: tick_def)
  with h show ?case by (simp add: tick_def)
qed


lemma unheld_checked:
  assumes "powered st pd" "PDType_val (pd_id pd) AND held = 0"
  shows "PDType_val (pd_id pd) AND st AND NOT held = PDType_val (pd_id pd)"
proof -
  from assms(1) have "PDType_val (pd_id pd) AND st = PDType_val (pd_id pd)"
    using PDType_val_single by (simp add: powered_def)
  moreover have "\<not> (bit (PDType_val (pd_id pd)) n \<and> bit held n)" for n
  proof -
    have "bit (PDType_val (pd_id pd) AND held) n = False" using assms(2) by simp
    then show ?thesis by (simp add: bit_and_iff)
  qed
  ultimately show ?thesis
    by (intro bit_eqI) (auto simp: bit_and_iff bit_not_iff, metis bit_and_iff)
qed

lemma expired_ids_member:
  "pd \<in> set pds \<Longrightarrow> PDType_val (pd_id pd) AND st AND dtc \<noteq> 0 \<Longrightarrow> snd (CheckTimeout pd lt) \<Longrightarrow>
   PDType_val (pd_id pd) AND expired_ids st dtc lt pds = PDType_val (pd_id pd)"
proof (induction pds)
  case Nil
  then show ?case by simp
next
  case (Cons p pds)
  show ?case
  proof (cases "pd = p")
    case True
    with Cons.prems show ?thesis by (simp add: or.commute and_or_self)
  next
    case False
    with Cons have "PDType_val (pd_id pd) AND expired_ids st dtc lt pds = PDType_val (pd_id pd)"
      by simp
    then show ?thesis
      by (auto intro!: bit_eqI simp: bit_and_iff bit_or_iff) (metis bit_and_iff)
  qed
qed

lemma expired_ids_others:
  "(\<And>p. p \<in> set pds \<Longrightarrow> pd_id p = i \<Longrightarrow> \<not> snd (CheckTimeout p lt)) \<Longrightarrow>
   PDType_val i AND expired_ids st dtc lt pds = 0"
proof (induction pds)
  case Nil
  show ?case by simp
next
  case (Cons p pds)
  then have IH: "PDType_val i AND expired_ids st dtc lt pds = 0" by simp
  show ?case
  proof (cases "PDType_val (pd_id p) AND st AND dtc \<noteq> 0 \<and> snd (CheckTimeout p lt)")
    case True
    with Cons.prems have "pd_id p \<noteq> i" by auto
    then have "PDType_val i AND PDType_val (pd_id p) = 0"
      by (intro PDType_val_disjoint) auto
    with True IH show ?thesis
      by (simp add: bit.conj_disj_distrib)
  next
    case False
    with IH show ?thesis by auto
  qed
qed

lemma distinct_ids_same:
  "distinct (map pd_id pds) \<Longrightarrow> i < length pds \<Longrightarrow> p \<in> set pds \<Longrightarrow> pd_id p = pd_id (pds ! i) \<Longrightarrow>
   p = pds ! i"
  by (metis distinct_map inj_on_eq_iff nth_mem)

lemma Loop_expire:
  assumes i: "i < length (domains s)"
    and on: "powered (powerState s) (domains s ! i)"
    and unheld: "PDType_val (pd_id (domains s ! i)) AND heldDomains (subscribers s) = 0"
    and t: "countdownTimer (domains s ! i) \<noteq> 0" "countdownTimer (domains s ! i) \<le> lt"
  shows "\<not> powered (nextPowerState s lt) (domains s ! i)"
proof -
  let ?pd = "domains s ! i"
  have c: "PDType_val (pd_id ?pd) AND powerState s AND NOT (heldDomains (subscribers s)) \<noteq> 0"
    using unheld_checked[OF on unheld] on by (auto simp: powered_def)
  have e: "snd (CheckTimeout ?pd lt)" using t by (simp add: CheckTimeout_def)
  have "PDType_val (pd_id ?pd) AND
          expired_ids (powerState s) (NOT (heldDomains (subscribers s))) lt (domains s)
        = PDType_val (pd_id ?pd)"
    using i c e by (intro expired_ids_member) auto
  then have "PDType_val (pd_id ?pd) AND nextPowerState s lt = 0"
    unfolding nextPowerState_eq
    by (intro bit_eqI) (auto simp: bit_and_iff bit_not_iff, metis bit_and_iff)
  then show ?thesis by (simp add: powered_def)
qed

lemma Loop_survivor:
  assumes i: "i < length (domains s)"
    and lt: "timeNow - lastLoopTime s < PWRMAN_MINTIMEOUT"
    and pn: "powered (nextPowerState s (timeNow - lastLoopTime s)) (domains s ! i)"
  shows "domains (Loop s timeNow irq) ! i = checked_domains s (timeNow - lastLoopTime s) ! i"
    and "powerState (Loop s timeNow irq) = nextPowerState s (timeNow - lastLoopTime s)"
    and "length (domains (Loop s timeNow irq)) = length (domains s)"
    and "count_list (trace (Loop s timeNow irq)) Enter_DeepSleep = count_list (trace s) Enter_DeepSleep"
proof -
  let ?pd = "domains s ! i"
  let ?lt = "timeNow - lastLoopTime s"
  let ?nxt = "nextPowerState s ?lt"
  have ne: "domains s \<noteq> []" using i by auto
  have lc: "length (checked_domains s ?lt) = length (domains s)"
    by (simp add: checked_domains_eq)
  have idc: "pd_id (checked_domains s ?lt ! i) = pd_id ?pd"
    using i by (simp add: checked_domains_eq)
  from pn have nz: "?nxt \<noteq> 0" by (auto simp: powered_def)
  have "domains (Loop s timeNow irq) ! i = checked_domains s ?lt ! i \<and>
        powerState (Loop s timeNow irq) = ?nxt \<and>
        length (domains (Loop s timeNow irq)) = length (domains s) \<and>
        count_list (trace (Loop s timeNow irq)) Enter_DeepSleep = count_list (trace s) Enter_DeepSleep"
  proof (cases "?nxt = powerState s")
    case True
    with ne lt lc show ?thesis by (simp add: Loop_no_transition)
  next
    case False
    obtain pds' st' tr' where
      off: "for_domains (Loop_off_body ?nxt) (checked_domains s ?lt)
          (powerState s, Loop_callbacks (powerState s) ?nxt (subscribers s) (trace s))
          = (pds', st', tr')"
      by (metis prod_cases3)
    note t = Loop_transition[OF ne lt False off]
    from pn have "PDType_val (pd_id ?pd) AND ?nxt = PDType_val (pd_id ?pd)"
      using PDType_val_single by (simp add: powered_def)
    then have "PDType_val (pd_id (checked_domains s ?lt ! i)) AND NOT ?nxt = 0"
      unfolding idc by (intro bit_eqI) (auto simp: bit_and_iff bit_not_iff, metis bit_and_iff)
    from Loop_off_nth[OF off _ this] i lc have "pds' ! i = checked_domains s ?lt ! i" by simp
    moreover from for_domains_length[OF off] lc have "length pds' = length (domains s)" by simp
    moreover from Loop_off_trace[OF off] obtain offs where
      "tr' = Loop_callbacks (powerState s) ?nxt (subscribers s) (trace s) @ offs"
      "\<forall>e\<in>set offs. is_power_off e" by blast
    then have "count_list tr' Enter_DeepSleep = count_list (trace s) Enter_DeepSleep"
      by (auto simp: Loop_callbacks_eq count_list_0_iff)
    ultimately show ?thesis using t nz by simp
  qed
  then show "domains (Loop s timeNow irq) ! i = checked_domains s (timeNow - lastLoopTime s) ! i"
    and "powerState (Loop s timeNow irq) = nextPowerState s (timeNow - lastLoopTime s)"
    and "length (domains (Loop s timeNow irq)) = length (domains s)"
    and "count_list (trace (Loop s timeNow irq)) Enter_DeepSleep = count_list (trace s) Enter_DeepSleep"
    by simp_all
qed

lemma Loop_run_down:
  assumes d: "distinct (map pd_id (domains s))"
    and i: "i < length (domains s)"
    and lt: "timeNow - lastLoopTime s < PWRMAN_MINTIMEOUT"
    and on: "powered (powerState s) (domains s ! i)"
    and unheld: "PDType_val (pd_id (domains s ! i)) AND heldDomains (subscribers s) = 0"
    and t: "timeNow - lastLoopTime s < countdownTimer (domains s ! i)"
  shows "powered (nextPowerState s (timeNow - lastLoopTime s)) (domains s ! i)"
    and "domains (Loop s timeNow irq) ! i =
           (domains s ! i)\<lparr>countdownTimer := countdownTimer (domains s ! i) - (timeNow - lastLoopTime s)\<rparr>"
    and "powered (powerState (Loop s timeNow irq)) (domains s ! i)"
proof -
  let ?pd = "domains s ! i"
  let ?lt = "timeNow - lastLoopTime s"
  have ne: "\<not> snd (CheckTimeout ?pd ?lt)" using t by (auto simp: CheckTimeout_def)
  have "PDType_val (pd_id ?pd) AND
          expired_ids (powerState s) (NOT (heldDomains (subscribers s))) ?lt (domains s) = 0"
  proof (rule expired_ids_others)
    fix p assume "p \<in> set (domains s)" "pd_id p = pd_id ?pd"
    with distinct_ids_same[OF d i] have "p = ?pd" by simp
    with ne show "\<not> snd (CheckTimeout p ?lt)" by simp
  qed
  then show pn: "powered (nextPowerState s ?lt) ?pd"
    using on by (simp add: powered_def nextPowerState_eq and_andnot_disjoint)
  have c: "PDType_val (pd_id ?pd) AND powerState s AND NOT (heldDomains (subscribers s)) \<noteq> 0"
    using unheld_checked[OF on unheld] on by (auto simp: powered_def)
  have "checked_domains s ?lt ! i = ?pd\<lparr>countdownTimer := countdownTimer ?pd - ?lt\<rparr>"
    using i c t by (auto simp: checked_domains_eq CheckTimeout_def not_le)
  with Loop_survivor[OF i lt pn, of irq] pn
  show "domains (Loop s timeNow irq) ! i = ?pd\<lparr>countdownTimer := countdownTimer ?pd - ?lt\<rparr>"
    and "powered (powerState (Loop s timeNow irq)) ?pd"
    by simp_all
qed


section \<open>C5: hold and the countdown\<close>

lemma powerman_hold_eq:
  "powerman_hold =
     \<lparr>domains = [pwrdom_cpu\<lparr>countdownTimer := 60000, actuator := Some True\<rparr>,
                 pwrdom_sd, pwrdom_boost,
                 pwrdom_amp\<lparr>countdownTimer := 50, actuator := Some True\<rparr>, pwrdom_pixel],
      subscribers = [ampSubscriber],
      wakeUpSource = wakeUp_none, powerState = 9, lastLoopTime = 0,
      trace = [Call_SetPower pwr4_CPU True, Call_SetPower pwr4_Amplif True, Call_PwrOn ''Amp'']\<rparr>"
  by (simp add: powerman_hold_def Setup_def RequestPower_def Loop_eval_defs ampSubscriber_def example_defs)

lemma powerman_held_eq:
  "powerman_held =
     \<lparr>domains = [pwrdom_cpu\<lparr>countdownTimer := 59940, actuator := Some True\<rparr>,
                 pwrdom_sd, pwrdom_boost,
                 pwrdom_amp\<lparr>countdownTimer := 50, actuator := Some True\<rparr>, pwrdom_pixel],
      subscribers = [ampSubscriber],
      wakeUpSource = wakeUp_none, powerState = 9, lastLoopTime = 60,
      trace = [Call_SetPower pwr4_CPU True, Call_SetPower pwr4_Amplif True, Call_PwrOn ''Amp'']\<rparr>"
  by (simp add: powerman_held_def powerman_hold_eq tick_def Loop_eval_defs ampSubscriber_def example_defs)

lemma powerman_released_eq:
  "powerman_released =
     \<lparr>domains = [pwrdom_cpu\<lparr>countdownTimer := 59930, actuator := Some True\<rparr>,
                 pwrdom_sd, pwrdom_boost,
                 pwrdom_amp\<lparr>countdownTimer := 40, actuator := Some True\<rparr>, pwrdom_pixel],
      subscribers = [ampSubscriber\<lparr>HoldPower := False\<rparr>],
      wakeUpSource = wakeUp_none, powerState = 9, lastLoopTime = 70,
      trace = [Call_SetPower pwr4_CPU True, Call_SetPower pwr4_Amplif True, Call_PwrOn ''Amp'']\<rparr>"
  by (simp add: powerman_released_def release_hold_def powerman_held_eq tick_def Loop_eval_defs ampSubscriber_def example_defs)

lemma tick_elapsed [simp]: "lastLoopTime s + d - lastLoopTime s = d"
  by simp

text \<open>
  C5, as the code has it. While some subscriber of a powered domain answers
  \<^verbatim>\<open>HoldPower()\<close> with true, no call of \<^verbatim>\<open>Loop()\<close>, whatever the elapsed times,
  clears the bit of the domain or touches its timer: hold pauses the countdown, and the
  time that passes under hold is not counted. Once no subscriber holds the domain, the
  countdown goes on from the stored value: in a call that is not skipped, the domain
  is marked off in the next state (and the next state, unless empty, becomes the live
  state) if its remaining countdown is at most the elapsed time of that call; otherwise
  (domain identifiers being distinct) it stays on and its countdown is reduced by the
  elapsed time.
\<close>

theorem hold_pauses_countdown:
  assumes "i < length (domains s)" and "powered (powerState s) (domains s ! i)"
  shows
   "(ps \<in> set (subscribers s) \<and> HoldPower ps \<and>
       subscribed (subscribedDomains ps) (domains s ! i) \<longrightarrow>
       powered (powerState (ticks s ds irq)) (domains s ! i) \<and>
       domains (ticks s ds irq) ! i = domains s ! i) \<and>
    (PDType_val (pd_id (domains s ! i)) AND heldDomains (subscribers s) = 0 \<and>
       d < PWRMAN_MINTIMEOUT \<and>
       countdownTimer (domains s ! i) \<noteq> 0 \<and> countdownTimer (domains s ! i) \<le> d \<longrightarrow>
       \<not> powered (nextPowerState s d) (domains s ! i) \<and>
       (nextPowerState s d \<noteq> 0 \<longrightarrow> powerState (tick s d irq) = nextPowerState s d)) \<and>
    (PDType_val (pd_id (domains s ! i)) AND heldDomains (subscribers s) = 0 \<and>
       d < PWRMAN_MINTIMEOUT \<and>
       d < countdownTimer (domains s ! i) \<and> distinct (map pd_id (domains s)) \<longrightarrow>
       powered (powerState (tick s d irq)) (domains s ! i) \<and>
       domains (tick s d irq) ! i =
         (domains s ! i)\<lparr>countdownTimer := countdownTimer (domains s ! i) - d\<rparr>)"
proof (intro conjI impI)
  assume "ps \<in> set (subscribers s) \<and> HoldPower ps \<and>
       subscribed (subscribedDomains ps) (domains s ! i)"
  then have "domains (ticks s ds irq) ! i = domains s ! i \<and>
         powered (powerState (ticks s ds irq)) (domains s ! i)"
    using assms by (intro ticks_hold) auto
  then show "powered (powerState (ticks s ds irq)) (domains s ! i)"
    and "domains (ticks s ds irq) ! i = domains s ! i"
    by simp_all
next
  assume a: "PDType_val (pd_id (domains s ! i)) AND heldDomains (subscribers s) = 0 \<and>
       d < PWRMAN_MINTIMEOUT \<and>
       countdownTimer (domains s ! i) \<noteq> 0 \<and> countdownTimer (domains s ! i) \<le> d"
  then show "\<not> powered (nextPowerState s d) (domains s ! i)"
    using assms by (intro Loop_expire) auto
  show "powerState (tick s d irq) = nextPowerState s d" if "nextPowerState s d \<noteq> 0"
  proof -
    have "domains s \<noteq> []" using assms(1) by auto
    from Loop_next_state[OF this, of "lastLoopTime s + d" irq] a that show ?thesis
      by (simp add: tick_def)
  qed
next
  assume a: "PDType_val (pd_id (domains s ! i)) AND heldDomains (subscribers s) = 0 \<and>
       d < PWRMAN_MINTIMEOUT \<and>
       d < countdownTimer (domains s ! i) \<and> distinct (map pd_id (domains s))"
  note r2 = Loop_run_down(2)[where s = s and i = i and timeNow = "lastLoopTime s + d" and irq = irq]
  note r3 = Loop_run_down(3)[where s = s and i = i and timeNow = "lastLoopTime s + d" and irq = irq]
  from r3 a assms show "powered (powerState (tick s d irq)) (domains s ! i)"
    by (simp add: tick_def)
  from r2 a assms show "domains (tick s d irq) ! i =
         (domains s ! i)\<lparr>countdownTimer := countdownTimer (domains s ! i) - d\<rparr>"
    by (simp add: tick_def)
qed

lemma powerman_low_held: "heldDomains (subscribers powerman_low) = 0"
  by (simp add: powerman_low_eq heldDomains_def example_defs)

lemma release_held_eq:
  "release_hold powerman_held =
     \<lparr>domains = [pwrdom_cpu\<lparr>countdownTimer := 59940, actuator := Some True\<rparr>,
                 pwrdom_sd, pwrdom_boost,
                 pwrdom_amp\<lparr>countdownTimer := 50, actuator := Some True\<rparr>, pwrdom_pixel],
      subscribers = [ampSubscriber\<lparr>HoldPower := False\<rparr>],
      wakeUpSource = wakeUp_none, powerState = 9, lastLoopTime = 60,
      trace = [Call_SetPower pwr4_CPU True, Call_SetPower pwr4_Amplif True, Call_PwrOn ''Amp'']\<rparr>"
  by (simp add: release_hold_def powerman_held_eq)

theorem hold_pauses_countdown_witness:
  "powered (powerState (ticks powerman_hold [10, 10, 10, 10, 10, 10] IRQ_BTN)) (domains powerman_hold ! 3) \<and>
   domains (ticks powerman_hold [10, 10, 10, 10, 10, 10] IRQ_BTN) ! 3 = domains powerman_hold ! 3 \<and>
   \<not> powered (nextPowerState powerman_low 10) (domains powerman_low ! 2) \<and>
   powerState (tick powerman_low 10 IRQ_BTN) = nextPowerState powerman_low 10 \<and>
   powered (powerState (tick (release_hold powerman_held) 10 IRQ_BTN))
     (domains (release_hold powerman_held) ! 3) \<and>
   countdownTimer (domains (tick (release_hold powerman_held) 10 IRQ_BTN) ! 3) = 40"
proof -
  have a1: "3 < length (domains powerman_hold)"
    and a2: "powered (powerState powerman_hold) (domains powerman_hold ! 3)"
    and a3: "ampSubscriber \<in> set (subscribers powerman_hold) \<and> HoldPower ampSubscriber \<and>
       subscribed (subscribedDomains ampSubscriber) (domains powerman_hold ! 3)"
    by (simp_all add: powerman_hold_eq powered_def subscribed_def ampSubscriber_def example_defs)
  from hold_pauses_countdown [OF a1 a2, where ps = ampSubscriber and ds = "[10, 10, 10, 10, 10, 10]" and irq = IRQ_BTN] a3
  have r1: "powered (powerState (ticks powerman_hold [10, 10, 10, 10, 10, 10] IRQ_BTN)) (domains powerman_hold ! 3) \<and>
       domains (ticks powerman_hold [10, 10, 10, 10, 10, 10] IRQ_BTN) ! 3 = domains powerman_hold ! 3"
    by blast
  have b1: "2 < length (domains powerman_low)"
    and b2: "powered (powerState powerman_low) (domains powerman_low ! 2)"
    and b3: "PDType_val (pd_id (domains powerman_low ! 2)) AND heldDomains (subscribers powerman_low) = 0 \<and>
       10 < PWRMAN_MINTIMEOUT \<and>
       countdownTimer (domains powerman_low ! 2) \<noteq> 0 \<and> countdownTimer (domains powerman_low ! 2) \<le> 10"
    and b4: "nextPowerState powerman_low 10 \<noteq> 0"
    by (simp_all add: powerman_low_held nextPowerState_low)
       (simp_all add: powerman_low_eq powered_def example_defs)
  from hold_pauses_countdown [OF b1 b2, where d = 10 and irq = IRQ_BTN] b3 b4
  have r2: "\<not> powered (nextPowerState powerman_low 10) (domains powerman_low ! 2) \<and>
       powerState (tick powerman_low 10 IRQ_BTN) = nextPowerState powerman_low 10"
    by blast
  have c1: "3 < length (domains (release_hold powerman_held))"
    and c2: "powered (powerState (release_hold powerman_held)) (domains (release_hold powerman_held) ! 3)"
    and c3: "PDType_val (pd_id (domains (release_hold powerman_held) ! 3)) AND
               heldDomains (subscribers (release_hold powerman_held)) = 0 \<and>
       10 < PWRMAN_MINTIMEOUT \<and>
       10 < countdownTimer (domains (release_hold powerman_held) ! 3) \<and>
       distinct (map pd_id (domains (release_hold powerman_held)))"
    and c4: "countdownTimer (domains (release_hold powerman_held) ! 3) - 10 = 40"
    by (simp_all add: release_held_eq powered_def heldDomains_def ampSubscriber_def example_defs)
  from hold_pauses_countdown [OF c1 c2, where d = 10 and irq = IRQ_BTN] c3
  have "powered (powerState (tick (release_hold powerman_held) 10 IRQ_BTN))
          (domains (release_hold powerman_held) ! 3) \<and>
        domains (tick (release_hold powerman_held) 10 IRQ_BTN) ! 3 =
         (domains (release_hold powerman_held) ! 3)
           \<lparr>countdownTimer := countdownTimer (domains (release_hold powerman_held) ! 3) - 10\<rparr>"
    by blast
  with c4 have r3: "powered (powerState (tick (release_hold powerman_held) 10 IRQ_BTN))
          (domains (release_hold powerman_held) ! 3) \<and>
        countdownTimer (domains (tick (release_hold powerman_held) 10 IRQ_BTN) ! 3) = 40"
    by simp
  from r1 r2 r3 show ?thesis by blast
qed

text \<open>
  The claim as written fails on the example. The amplifier is armed with its timeout
  of 50 ms and held. Six calls of \<^verbatim>\<open>Loop()\<close>, 10 ms apart, pass 60 ms of elapsed time,
  more than the timeout. The hold is then released. In the next call, 10 ms later, the
  amplifier does not expire: it is still powered, with 40 ms left.
\<close>

theorem hold_release_counterexample:
  "pd_id (domains powerman_hold ! 3) = pwr4_Amplif \<and>
   pd_timeout (domains powerman_hold ! 3) = 50 \<and>
   countdownTimer (domains powerman_hold ! 3) = 50 \<and>
   subscribers powerman_hold = [ampSubscriber] \<and> HoldPower ampSubscriber \<and>
   subscribedDomains ampSubscriber = PDType_val pwr4_Amplif \<and>
   powerman_held = ticks powerman_hold [10, 10, 10, 10, 10, 10] IRQ_BTN \<and>
   powered (powerState powerman_held) (domains powerman_held ! 3) \<and>
   heldDomains (subscribers (release_hold powerman_held)) = 0 \<and>
   powerman_released = tick (release_hold powerman_held) 10 IRQ_BTN \<and>
   powered (powerState powerman_released) (domains powerman_released ! 3) \<and>
   countdownTimer (domains powerman_released ! 3) = 40"
proof -
  have "powerman_held = ticks powerman_hold [10, 10, 10, 10, 10, 10] IRQ_BTN"
    and "powerman_released = tick (release_hold powerman_held) 10 IRQ_BTN"
    by (simp_all add: powerman_held_def powerman_released_def)
  moreover have "pd_id (domains powerman_hold ! 3) = pwr4_Amplif"
    and "pd_timeout (domains powerman_hold ! 3) = 50"
    and "countdownTimer (domains powerman_hold ! 3) = 50"
    and "subscribers powerman_hold = [ampSubscriber]" and "HoldPower ampSubscriber"
    and "subscribedDomains ampSubscriber = PDType_val pwr4_Amplif"
    by (simp_all add: powerman_hold_eq ampSubscriber_def example_defs)
  moreover have "powered (powerState powerman_held) (domains powerman_held ! 3)"
    by (simp add: powerman_held_eq powered_def example_defs)
  moreover have "heldDomains (subscribers (release_hold powerman_held)) = 0"
    by (simp add: release_held_eq heldDomains_def ampSubscriber_def)
  moreover have "powered (powerState powerman_released) (domains powerman_released ! 3)"
    and "countdownTimer (domains powerman_released ! 3) = 40"
    by (simp_all add: powerman_released_eq powered_def example_defs)
  ultimately show ?thesis by blast
qed


section \<open>Invariants\<close>

lemma andnot_zero_iff: "((x::'a::len word) AND NOT y = 0) = (\<forall>n. bit x n \<longrightarrow> bit y n)"
proof
  assume z: "x AND NOT y = 0"
  show "\<forall>n. bit x n \<longrightarrow> bit y n"
  proof (intro allI impI)
    fix n assume b: "bit x n"
    have "bit (x AND NOT y) n = False" using z by simp
    with b show "bit y n" by (auto simp: bit_and_iff bit_not_iff dest: bit_imp_possible_bit)
  qed
next
  assume "\<forall>n. bit x n \<longrightarrow> bit y n"
  then show "x AND NOT y = 0"
    by (intro bit_eqI) (auto simp: bit_and_iff bit_not_iff)
qed

lemma local_step_id: "local_step p st p' st1 \<Longrightarrow> pd_id p' = pd_id p"
  by (induction rule: local_step.induct) auto

lemma local_step_others:
  "local_step p st p' st1 \<Longrightarrow> pd_id d \<noteq> pd_id p \<Longrightarrow> powered st1 d = powered st d"
  by (induction rule: local_step.induct) (auto simp: powered_or powered_andnot)

lemma powered_id_cong: "pd_id p' = pd_id p \<Longrightarrow> powered st p' = powered st p"
  by (simp add: powered_def)

lemma local_step_ok: "local_step p st p' st1 \<Longrightarrow> dom_ok st p \<Longrightarrow> dom_ok st1 p'"
proof (induction rule: local_step.induct)
  case (keep p st)
  then show ?case by simp
next
  case (turn_on p' p st)
  have "powered (st OR PDType_val (pd_id p)) p' = powered (st OR PDType_val (pd_id p)) p"
    using turn_on(1) by (rule powered_id_cong)
  also have "\<dots> = True" using turn_on(2) by (simp add: powered_or_self)
  finally show ?case using turn_on(3,4) unfolding dom_ok_def by simp
next
  case (turn_off p' p st)
  have "powered (st AND NOT (PDType_val (pd_id p))) p' = powered (st AND NOT (PDType_val (pd_id p))) p"
    using turn_off(1) by (rule powered_id_cong)
  also have "\<dots> = False" by (simp add: powered_andnot_self)
  finally show ?case using turn_off(2,3) unfolding dom_ok_def by simp
next
  case (rearm p' p st)
  have "powered st p' = powered st p" using rearm(1) by (rule powered_id_cong)
  with rearm(2,3,4,5) show ?case unfolding dom_ok_def by simp
next
  case (retime p' p st)
  have "powered st p' = powered st p" using retime(1) by (rule powered_id_cong)
  with retime(2,3,4) show ?case unfolding dom_ok_def by auto
qed

lemma local_step_stray:
  "local_step p st p' st1 \<Longrightarrow> bit st1 n \<Longrightarrow> bit st n \<or> bit (PDType_val (pd_id p)) n"
  by (induction rule: local_step.induct) (auto simp: bit_or_iff bit_and_iff)

lemma local_steps_ids: "local_steps pds st pds' st' \<Longrightarrow> map pd_id pds' = map pd_id pds"
  by (induction rule: local_steps.induct) (auto dest: local_step_id)

lemma local_steps_others:
  "local_steps pds st pds' st' \<Longrightarrow> pd_id d \<notin> pd_id ` set pds \<Longrightarrow> powered st' d = powered st d"
  by (induction rule: local_steps.induct) (auto dest: local_step_others)

lemma dom_ok_cong: "powered st' p = powered st p \<Longrightarrow> dom_ok st' p = dom_ok st p"
  by (simp add: dom_ok_def)

lemma local_steps_ok:
  "local_steps pds st pds' st' \<Longrightarrow> distinct (map pd_id pds) \<Longrightarrow>
   \<forall>pd\<in>set pds. dom_ok st pd \<Longrightarrow> \<forall>pd\<in>set pds'. dom_ok st' pd"
proof (induction rule: local_steps.induct)
  case (Nil st)
  then show ?case by simp
next
  case (Cons p st p' st1 pds pds' st')
  have idp: "pd_id p' = pd_id p" using Cons.hyps(1) by (rule local_step_id)
  have tail: "\<forall>pd\<in>set pds. dom_ok st1 pd"
  proof
    fix pd assume m: "pd \<in> set pds"
    with Cons.prems(1) have "pd_id pd \<noteq> pd_id p" by (intro distinct_ids_tail)
    from local_step_others[OF Cons.hyps(1) this] have "powered st1 pd = powered st pd" .
    moreover from Cons.prems(2) m have "dom_ok st pd" by simp
    ultimately show "dom_ok st1 pd" by (metis dom_ok_cong)
  qed
  have "dom_ok st p" using Cons.prems(2) by simp
  with Cons.hyps(1) have "dom_ok st1 p'" by (rule local_step_ok)
  moreover have "powered st' p' = powered st1 p'"
    using Cons.prems(1) idp by (intro local_steps_others[OF Cons.hyps(2)]) auto
  ultimately have "dom_ok st' p'" by (metis dom_ok_cong)
  moreover have "\<forall>pd\<in>set pds'. dom_ok st' pd"
    using Cons.IH Cons.prems(1) tail by simp
  ultimately show ?case by simp
qed

lemma local_steps_stray:
  "local_steps pds st pds' st' \<Longrightarrow> bit st' n \<Longrightarrow> bit st n \<or> bit (domain_ids pds) n"
proof (induction rule: local_steps.induct)
  case (Nil st)
  then show ?case by simp
next
  case (Cons p st p' st1 pds pds' st')
  from Cons.IH[OF Cons.prems] local_step_stray[OF Cons.hyps(1), of n] show ?case
    by (auto simp: bit_or_iff)
qed

lemma local_steps_refl: "local_steps pds st pds st"
  by (induction pds) (auto intro: local_steps.intros local_step.intros)

lemma domain_ids_cong: "map pd_id pds' = map pd_id pds \<Longrightarrow> domain_ids pds' = domain_ids pds"
proof (induction pds arbitrary: pds')
  case Nil
  then show ?case by simp
next
  case (Cons p pds)
  from Cons.prems obtain q qs where q: "pds' = q # qs" by (cases pds') auto
  with Cons.prems have "pd_id q = pd_id p" and "map pd_id qs = map pd_id pds" by simp_all
  with Cons.IH[of qs] q show ?case by simp
qed

lemma local_steps_inv:
  assumes "pm_inv s" "local_steps (domains s) (powerState s) pds' st'"
    and "domains s' = pds'" "powerState s' = st'"
  shows "pm_inv s'"
proof -
  from assms(1) have d: "distinct (map pd_id (domains s))"
    and nn: "pwr4_none \<notin> set (map pd_id (domains s))"
    and ok: "\<forall>pd\<in>set (domains s). dom_ok (powerState s) pd"
    and stray: "\<forall>n. bit (powerState s) n \<longrightarrow> bit (domain_ids (domains s)) n"
    by (simp_all add: pm_inv_def andnot_zero_iff)
  note ids = local_steps_ids[OF assms(2)]
  from local_steps_stray[OF assms(2)] stray
  have "\<forall>n. bit st' n \<longrightarrow> bit (domain_ids (domains s)) n"
    by blast
  then have "st' AND NOT (domain_ids (domains s)) = 0"
    by (simp add: andnot_zero_iff)
  with local_steps_ok[OF assms(2) d ok] ids d nn domain_ids_cong[OF ids] assms(3,4)
  show ?thesis unfolding pm_inv_def by simp
qed


lemma ResetTimeout_armed: "countdownTimer (ResetTimeout pd t) \<noteq> 0"
proof -
  have "PWRMAN_MINTIMEOUT \<le> countdownTimer (ResetTimeout pd t)"
    by (simp add: ResetTimeout_timer clamp_spec_def max.coboundedI2)
  moreover have "0 < PWRMAN_MINTIMEOUT" by (simp add: PWRMAN_MINTIMEOUT_def)
  ultimately show ?thesis by (metis leD)
qed

lemma wants_on_not_none: "wants_on m st p \<Longrightarrow> pd_id p \<noteq> pwr4_none"
  by (auto simp: wants_on_def)

lemma Activate_loop_steps:
  "for_domains (Activate_body m) pds (st, tr, r) = (pds', st', tr', r') \<Longrightarrow>
   local_steps pds st pds' st'"
proof (induction pds arbitrary: st tr r pds' st' tr' r')
  case Nil
  then show ?case by (auto intro: local_steps.Nil)
next
  case (Cons p pds)
  show ?case
  proof (cases "wants_on m st p")
    case True
    with Cons.prems obtain qs where
      r: "for_domains (Activate_body m) pds
         (st OR PDType_val (pd_id p), tr @ [Call_SetPower (pd_id p) True], True) = (qs, st', tr', r')"
      and p: "pds' = (ResetTimeout p 0)\<lparr>actuator := Some True\<rparr> # qs"
      by (auto simp: Activate_body_eq split: prod.splits)
    have "local_step p st ((ResetTimeout p 0)\<lparr>actuator := Some True\<rparr>) (st OR PDType_val (pd_id p))"
      using True by (intro local_step.turn_on) (simp_all add: wants_on_not_none ResetTimeout_armed)
    with Cons.IH[OF r] p show ?thesis by (auto intro: local_steps.Cons)
  next
    case False
    with Cons.prems obtain qs where
      r: "for_domains (Activate_body m) pds (st, tr, r) = (qs, st', tr', r')" and p: "pds' = p # qs"
      by (auto simp: Activate_body_eq split: prod.splits)
    with Cons.IH[OF r] show ?thesis by (auto intro: local_steps.Cons local_step.keep)
  qed
qed

lemma subscribed_not_none: "PDType_val (pd_id p) AND sub \<noteq> 0 \<Longrightarrow> pd_id p \<noteq> pwr4_none"
  by auto

lemma RequestPower_domains_steps:
  "RequestPower_domains sub tmo pds st tr r = Some (pds', st', tr', r') \<Longrightarrow>
   local_steps pds st pds' st'"
proof (induction pds arbitrary: tmo st tr r pds' st' tr' r')
  case Nil
  then show ?case by (auto intro: local_steps.Nil)
next
  case (Cons p pds)
  show ?case
  proof (cases "PDType_val (pd_id p) AND sub \<noteq> 0")
    case False
    with Cons.prems obtain qs where
      r: "RequestPower_domains sub tmo pds st tr r = Some (qs, st', tr', r')" and p: "pds' = p # qs"
      by (auto split: option.splits)
    with Cons.IH[OF r] show ?thesis by (auto intro: local_steps.Cons local_step.keep)
  next
    case True
    from True Cons.prems obtain t tmo1 where
      t: "(case tmo of None \<Rightarrow> Some (ResetTimeout p 0, None) | Some [] \<Rightarrow> None
           | Some (t # ts) \<Rightarrow> Some (ResetTimeout p t, Some ts)) = Some (ResetTimeout p t, tmo1)"
      by (auto split: option.splits list.splits)
    show ?thesis
    proof (cases "st AND PDType_val (pd_id p) \<noteq> 0")
      case on: True
      with True t Cons.prems obtain qs where
        r: "RequestPower_domains sub tmo1 pds st tr r = Some (qs, st', tr', r')"
        and p: "pds' = ResetTimeout p t # qs"
        by (auto split: option.splits)
      have "local_step p st (ResetTimeout p t) st"
        using on by (intro local_step.rearm) (simp_all add: powered_def and.commute ResetTimeout_armed)
      with Cons.IH[OF r] p show ?thesis by (auto intro: local_steps.Cons)
    next
      case off: False
      with True t Cons.prems obtain qs where
        r: "RequestPower_domains sub tmo1 pds (st OR PDType_val (pd_id p))
              (tr @ [Call_SetPower (pd_id p) True]) True = Some (qs, st', tr', r')"
        and p: "pds' = (ResetTimeout p t)\<lparr>actuator := Some True\<rparr> # qs"
        by (auto simp: SetPower_def split: option.splits)
      have "local_step p st ((ResetTimeout p t)\<lparr>actuator := Some True\<rparr>) (st OR PDType_val (pd_id p))"
        using True by (intro local_step.turn_on) (simp_all add: subscribed_not_none ResetTimeout_armed)
      with Cons.IH[OF r] p show ?thesis by (auto intro: local_steps.Cons)
    qed
  qed
qed

lemma dom_request_loop_steps:
  "dom_request_loop token rest pds st tr = Some (pds', st', tr') \<Longrightarrow>
   pwr4_none \<notin> set (map pd_id pds) \<Longrightarrow> local_steps pds st pds' st'"
proof (induction pds arbitrary: pds' st' tr')
  case Nil
  then show ?case by (auto intro: local_steps.Nil)
next
  case (Cons p pds)
  show ?case
  proof (cases "token = pd_name p")
    case False
    with Cons.prems obtain qs where
      r: "dom_request_loop token rest pds st tr = Some (qs, st', tr')" and p: "pds' = p # qs"
      by (auto split: option.splits)
    with Cons.IH[OF r] Cons.prems(2) show ?thesis by (auto intro: local_steps.Cons local_step.keep)
  next
    case True
    with Cons.prems obtain t where
      c: "(\<not> powered st p \<and> pds' = (ResetTimeout p t)\<lparr>actuator := Some True\<rparr> # pds \<and>
            st' = st OR PDType_val (pd_id p)) \<or>
          (powered st p \<and> pds' = ResetTimeout p t # pds \<and> st' = st)"
      by (auto simp: Let_def SetPower_def powered_def split: option.splits if_splits)
    then show ?thesis
    proof
      assume a: "\<not> powered st p \<and> pds' = (ResetTimeout p t)\<lparr>actuator := Some True\<rparr> # pds \<and>
            st' = st OR PDType_val (pd_id p)"
      from Cons.prems(2) have "pd_id p \<noteq> pwr4_none" by auto
      then have "local_step p st ((ResetTimeout p t)\<lparr>actuator := Some True\<rparr>) (st OR PDType_val (pd_id p))"
        by (intro local_step.turn_on) (simp_all add: ResetTimeout_armed)
      with a show ?thesis by (auto intro: local_steps.Cons local_steps_refl)
    next
      assume a: "powered st p \<and> pds' = ResetTimeout p t # pds \<and> st' = st"
      then have "local_step p st (ResetTimeout p t) st"
        by (intro local_step.rearm) (simp_all add: ResetTimeout_armed)
      with a show ?thesis by (auto intro: local_steps.Cons local_steps_refl)
    qed
  qed
qed


lemma dom_off_loop_steps:
  "dom_off_loop arg pds st tr = (pds', st', tr') \<Longrightarrow> local_steps pds st pds' st'"
proof (induction pds arbitrary: pds' st' tr')
  case Nil
  then show ?case by (auto intro: local_steps.Nil)
next
  case (Cons p pds)
  show ?case
  proof (cases "arg = pd_name p")
    case False
    with Cons.prems obtain qs where
      r: "dom_off_loop arg pds st tr = (qs, st', tr')" and p: "pds' = p # qs"
      by (auto split: prod.splits)
    with Cons.IH[OF r] show ?thesis by (auto intro: local_steps.Cons local_step.keep)
  next
    case True
    show ?thesis
    proof (cases "PDType_val (pd_id p) AND st \<noteq> 0")
      case on: True
      with True Cons.prems have p: "pds' = p\<lparr>actuator := Some False, countdownTimer := 0\<rparr> # pds"
        and s: "st' = st AND NOT (PDType_val (pd_id p))"
        by (auto simp: SetPower_def)
      have "local_step p st (p\<lparr>actuator := Some False, countdownTimer := 0\<rparr>)
              (st AND NOT (PDType_val (pd_id p)))"
        by (intro local_step.turn_off) simp_all
      with p s show ?thesis by (auto intro: local_steps.Cons local_steps_refl)
    next
      case False
      with True Cons.prems show ?thesis by (auto intro: local_steps_refl)
    qed
  qed
qed

lemma deepsleep_off_body_eq:
  "deepsleep_off_body pd (st, tr) =
     (if PDType_val (pd_id pd) AND st \<noteq> 0
      then (pd\<lparr>actuator := Some False, countdownTimer := 0\<rparr>, st AND NOT (PDType_val (pd_id pd)),
            tr @ [Call_SetPower (pd_id pd) False])
      else (pd, st, tr))"
  by (simp add: deepsleep_off_body_def SetPower_def)

lemma deepsleep_off_steps:
  "for_domains deepsleep_off_body pds (st, tr) = (pds', st', tr') \<Longrightarrow> local_steps pds st pds' st'"
proof (induction pds arbitrary: st tr pds' st' tr')
  case Nil
  then show ?case by (auto intro: local_steps.Nil)
next
  case (Cons p pds)
  show ?case
  proof (cases "PDType_val (pd_id p) AND st \<noteq> 0")
    case True
    with Cons.prems obtain qs where
      r: "for_domains deepsleep_off_body pds
            (st AND NOT (PDType_val (pd_id p)), tr @ [Call_SetPower (pd_id p) False]) = (qs, st', tr')"
      and p: "pds' = p\<lparr>actuator := Some False, countdownTimer := 0\<rparr> # qs"
      by (auto simp: deepsleep_off_body_eq split: prod.splits)
    have "local_step p st (p\<lparr>actuator := Some False, countdownTimer := 0\<rparr>)
              (st AND NOT (PDType_val (pd_id p)))"
      by (intro local_step.turn_off) simp_all
    with Cons.IH[OF r] p show ?thesis by (auto intro: local_steps.Cons)
  next
    case False
    with Cons.prems obtain qs where
      r: "for_domains deepsleep_off_body pds (st, tr) = (qs, st', tr')" and p: "pds' = p # qs"
      by (auto simp: deepsleep_off_body_eq split: prod.splits)
    with Cons.IH[OF r] show ?thesis by (auto intro: local_steps.Cons local_step.keep)
  qed
qed


lemma pm_inv_cong:
  "domains s' = domains s \<Longrightarrow> powerState s' = powerState s \<Longrightarrow> pm_inv s' = pm_inv s"
  by (simp add: pm_inv_def)

lemma Activate_inv: "pm_inv s \<Longrightarrow> pm_inv (snd (Activate s m))"
proof (cases "domains s = []")
  case True
  then show "pm_inv s \<Longrightarrow> pm_inv (snd (Activate s m))" by (simp add: Activate_def)
next
  case False
  assume inv: "pm_inv s"
  obtain pds' st' tr' r' where
    f: "for_domains (Activate_body m) (domains s) (powerState s, trace s, False) = (pds', st', tr', r')"
    by (metis prod_cases4)
  from f False have "domains (snd (Activate s m)) = pds'" "powerState (snd (Activate s m)) = st'"
    by (auto simp: Activate_def)
  with local_steps_inv[OF inv Activate_loop_steps[OF f]] show ?thesis by simp
qed

lemma RequestPower_inv: "RequestPower s ps tmo = Some (r, s') \<Longrightarrow> pm_inv s \<Longrightarrow> pm_inv s'"
proof (cases "domains s = []")
  case True
  then show "RequestPower s ps tmo = Some (r, s') \<Longrightarrow> pm_inv s \<Longrightarrow> pm_inv s'"
    by (auto simp: RequestPower_def)
next
  case False
  assume a: "RequestPower s ps tmo = Some (r, s')" and inv: "pm_inv s"
  from a False obtain pds' st' tr' r' where
    f: "RequestPower_domains (subscribedDomains ps) tmo (domains s) (powerState s) (trace s) False
          = Some (pds', st', tr', r')"
    and d: "domains s' = pds'" "powerState s' = st'"
    by (auto simp: RequestPower_def split: option.splits)
  from local_steps_inv[OF inv RequestPower_domains_steps[OF f] d] show ?thesis .
qed

lemma CPU_DeepSleep_inv: "pm_inv (CPU_DeepSleep s irq) = pm_inv s"
  by (rule pm_inv_cong) simp_all

lemma sub_request_loop_inv:
  "sub_request_loop arg pss s = Some s' \<Longrightarrow> pm_inv s \<Longrightarrow> pm_inv s'"
  by (induction pss) (auto split: if_splits option.splits dest: RequestPower_inv)

lemma if_chain7:
  assumes "(if c1 then a1 else if c2 then a2 else if c3 then a3 else if c4 then a4
            else if c5 then a5 else if c6 then a6 else a7) = x"
  obtains "a1 = x" | "a2 = x" | "a3 = x" | "a4 = x" | "a5 = x" | "a6 = x" | "a7 = x"
  using assms by (auto split: if_splits)

lemma Parse_inv:
  assumes "Parse diag s cmd arg saberOn irq = Some (r, s')" "pm_inv s"
  shows "pm_inv s'"
  using assms(1)[unfolded Parse_def]
proof (cases rule: if_chain7)
  case 1
  with assms(2) show ?thesis by simp
next
  case 2
  then consider (same) "s' = s"
    | (req) token rest pds st tr where
      "dom_request_loop token rest (domains s) (powerState s) (trace s) = Some (pds, st, tr)"
      "s' = s\<lparr>domains := pds, powerState := st, trace := tr\<rparr>"
    by (auto split: if_splits option.splits)
  then show ?thesis
  proof cases
    case same
    with assms(2) show ?thesis by simp
  next
    case req
    from assms(2) have "pwr4_none \<notin> set (map pd_id (domains s))" by (simp add: pm_inv_def)
    from local_steps_inv[OF assms(2) dom_request_loop_steps[OF req(1) this], of s'] req(2)
    show ?thesis by simp
  qed
next
  case 3
  then consider (same) "s' = s"
    | (off) pds st tr where
      "dom_off_loop arg (domains s) (powerState s) (trace s) = (pds, st, tr)"
      "s' = s\<lparr>domains := pds, powerState := st, trace := tr\<rparr>"
    by (auto split: if_splits prod.splits)
  then show ?thesis
  proof cases
    case same
    with assms(2) show ?thesis by simp
  next
    case off
    from local_steps_inv[OF assms(2) dom_off_loop_steps[OF off(1)], of s'] off(2)
    show ?thesis by simp
  qed
next
  case 4
  with assms(2) show ?thesis by simp
next
  case 5
  then consider (same) "s' = s" | (sub) "sub_request_loop arg (subscribers s) s = Some s'"
    by (auto split: if_splits option.splits)
  then show ?thesis
  proof cases
    case same
    with assms(2) show ?thesis by simp
  next
    case sub
    with assms(2) show ?thesis by (rule sub_request_loop_inv[rotated])
  qed
next
  case 6
  show ?thesis
  proof (cases "saberOn \<or> domains s = []")
    case True
    with 6 have "s' = s" by (auto split: if_splits)
    with assms(2) show ?thesis by simp
  next
    case False
    obtain pds st tr where
      f: "for_domains deepsleep_off_body (domains s) (powerState s, trace s) = (pds, st, tr)"
      by (metis prod_cases3)
    let ?s1 = "s\<lparr>domains := pds, powerState := st,
                   trace := foldl (\<lambda>tr ps. PwrOff_Callback ps tr) tr (subscribers s)\<rparr>"
    from 6 False f have e: "s' = snd (Activate (CPU_DeepSleep ?s1 irq) PWRMAN_STARTON)"
      by (simp add: Let_def)
    from local_steps_inv[OF assms(2) deepsleep_off_steps[OF f], of ?s1]
    have "pm_inv ?s1" by simp
    then have "pm_inv (CPU_DeepSleep ?s1 irq)" by (simp add: CPU_DeepSleep_inv)
    then show ?thesis unfolding e by (rule Activate_inv)
  qed
next
  case 7
  with assms(2) show ?thesis by simp
qed


section \<open>The arbitration loop in closed form\<close>

lemma and_zero_bits: "(x::'a::len word) AND y = 0 \<Longrightarrow> \<not> (bit x n \<and> bit y n)"
proof -
  assume "x AND y = 0"
  then have "bit (x AND y) n = False" by simp
  then show ?thesis by (simp add: bit_and_iff)
qed

lemma and_not_of_disjoint: "(x::'a::len word) AND y = 0 \<Longrightarrow> x AND NOT y = x"
  using and_zero_bits[of x y]
  by (intro bit_eqI) (auto simp: bit_and_iff bit_not_iff dest: bit_imp_possible_bit)

lemma Loop_off_domains:
  "distinct (map pd_id pds) \<Longrightarrow>
   for_domains (Loop_off_body nxt) pds (st, tr) = (pds', st', tr') \<Longrightarrow>
   pds' = map (\<lambda>q. if powered st q \<and> PDType_val (pd_id q) AND NOT nxt \<noteq> 0
               then q\<lparr>actuator := Some False\<rparr> else q) pds \<and>
   tr' = tr @ map (\<lambda>q. Call_SetPower (pd_id q) False)
             (filter (\<lambda>q. powered st q \<and> PDType_val (pd_id q) AND NOT nxt \<noteq> 0) pds)"
proof (induction pds arbitrary: st tr pds' st' tr')
  case Nil
  then show ?case by simp
next
  case (Cons p pds)
  have d: "distinct (map pd_id pds)" using Cons.prems by simp
  have tail: "\<And>q. q \<in> set pds \<Longrightarrow> powered (st AND NOT (PDType_val (pd_id p))) q = powered st q"
    using Cons.prems(1) by (intro powered_andnot distinct_ids_tail)
  show ?case
  proof (cases "powered st p \<and> PDType_val (pd_id p) AND NOT nxt \<noteq> 0")
    case True
    have m: "map (\<lambda>q. if powered (st AND NOT (PDType_val (pd_id p))) q \<and> PDType_val (pd_id q) AND NOT nxt \<noteq> 0
               then q\<lparr>actuator := Some False\<rparr> else q) pds =
          map (\<lambda>q. if powered st q \<and> PDType_val (pd_id q) AND NOT nxt \<noteq> 0
               then q\<lparr>actuator := Some False\<rparr> else q) pds"
      using tail by (intro map_cong) auto
    have fl: "filter (\<lambda>q. powered (st AND NOT (PDType_val (pd_id p))) q \<and> PDType_val (pd_id q) AND NOT nxt \<noteq> 0) pds =
          filter (\<lambda>q. powered st q \<and> PDType_val (pd_id q) AND NOT nxt \<noteq> 0) pds"
      using tail by (intro filter_cong) auto
    from True Cons.prems(2) obtain qs where
      r: "for_domains (Loop_off_body nxt) pds
         (st AND NOT (PDType_val (pd_id p)), tr @ [Call_SetPower (pd_id p) False]) = (qs, st', tr')"
      and p: "pds' = p\<lparr>actuator := Some False\<rparr> # qs"
      by (auto simp: Loop_off_body_eq powered_def split: prod.splits)
    from Cons.IH[OF d r] True p show ?thesis by (simp add: m fl)
  next
    case False
    with Cons.prems(2) obtain qs where
      r: "for_domains (Loop_off_body nxt) pds (st, tr) = (qs, st', tr')" and p: "pds' = p # qs"
      by (auto simp: Loop_off_body_eq powered_def split: prod.splits)
    from Cons.IH[OF d r] False p show ?thesis by auto
  qed
qed

lemma expires_powered: "expires s lt p \<Longrightarrow> powered (powerState s) p"
proof -
  assume "expires s lt p"
  then have "(PDType_val (pd_id p) AND powerState s) AND NOT (heldDomains (subscribers s)) \<noteq> 0"
    by (simp add: expires_def and.assoc)
  then show ?thesis by (auto simp: powered_def)
qed

lemma powered_next:
  assumes "distinct (map pd_id (domains s))" "p \<in> set (domains s)"
  shows "powered (nextPowerState s lt) p = (powered (powerState s) p \<and> \<not> expires s lt p)"
proof (cases "expires s lt p")
  case True
  then have "PDType_val (pd_id p) AND
               expired_ids (powerState s) (NOT (heldDomains (subscribers s))) lt (domains s)
             = PDType_val (pd_id p)"
    using assms(2) by (intro expired_ids_member) (auto simp: expires_def)
  then have "PDType_val (pd_id p) AND nextPowerState s lt = 0"
    unfolding nextPowerState_eq
    by (intro bit_eqI) (auto simp: bit_and_iff bit_not_iff, metis bit_and_iff)
  with True show ?thesis by (simp add: powered_def)
next
  case False
  have "PDType_val (pd_id p) AND
          expired_ids (powerState s) (NOT (heldDomains (subscribers s))) lt (domains s) = 0"
  proof (cases "PDType_val (pd_id p) AND powerState s AND NOT (heldDomains (subscribers s)) = 0")
    case True
    then show ?thesis by (rule expired_ids_disjoint)
  next
    case c: False
    show ?thesis
    proof (rule expired_ids_others)
      fix q assume q: "q \<in> set (domains s)" "pd_id q = pd_id p"
      from assms(2) obtain i where i: "i < length (domains s)" "domains s ! i = p"
        by (auto simp: in_set_conv_nth)
      with distinct_ids_same[OF assms(1) i(1) q(1)] q(2) have "q = p" by simp
      with False c show "\<not> snd (CheckTimeout q lt)" by (simp add: expires_def)
    qed
  qed
  with False show ?thesis
    by (simp add: powered_def nextPowerState_eq and_andnot_disjoint)
qed

lemma not_next_iff:
  "powered st p \<Longrightarrow> (PDType_val (pd_id p) AND NOT nxt \<noteq> 0) = (\<not> powered nxt p)"
proof -
  assume "powered st p"
  then have nz: "PDType_val (pd_id p) \<noteq> 0" by (auto simp: powered_def)
  show ?thesis
  proof (cases "powered nxt p")
    case True
    then have "PDType_val (pd_id p) AND nxt = PDType_val (pd_id p)"
      using PDType_val_single by (simp add: powered_def)
    then have "PDType_val (pd_id p) AND NOT nxt = 0"
      by (intro bit_eqI) (auto simp: bit_and_iff bit_not_iff, metis bit_and_iff)
    with True show ?thesis by simp
  next
    case False
    then have "PDType_val (pd_id p) AND nxt = 0" by (simp add: powered_def)
    then have "PDType_val (pd_id p) AND NOT nxt = PDType_val (pd_id p)"
      by (rule and_not_of_disjoint)
    with False nz show ?thesis by simp
  qed
qed


lemma expires_CheckTimeout:
  "expires s lt p \<Longrightarrow> fst (CheckTimeout p lt) = p\<lparr>countdownTimer := 0\<rparr>"
  by (auto simp: expires_def CheckTimeout_def split: if_splits)

lemma Loop_off_arbitrated:
  assumes d: "distinct (map pd_id (domains s))"
    and off: "for_domains (Loop_off_body (nextPowerState s lt)) (checked_domains s lt)
                (powerState s, tr) = (pds', st', tr')"
  shows "pds' = map (arbitrated s lt) (domains s)"
    and "tr' = tr @ map (\<lambda>pd. Call_SetPower (pd_id pd) False) (filter (expires s lt) (domains s))"
proof -
  define c where "c = (\<lambda>pd. if PDType_val (pd_id pd) AND powerState s AND NOT (heldDomains (subscribers s)) \<noteq> 0
               then fst (CheckTimeout pd lt) else pd)"
  define cond where "cond = (\<lambda>q. powered (powerState s) q \<and> PDType_val (pd_id q) AND NOT (nextPowerState s lt) \<noteq> 0)"
  define h where "h = (\<lambda>q. if cond q then q\<lparr>actuator := Some False\<rparr> else q)"
  have idc: "pd_id (c p) = pd_id p" for p by (simp add: c_def)
  have cd: "checked_domains s lt = map c (domains s)"
    by (simp add: checked_domains_eq c_def)
  have mc: "map pd_id (map c (domains s)) = map pd_id (domains s)"
    by (simp add: idc)
  have dc: "distinct (map pd_id (map c (domains s)))"
    unfolding mc by (rule d)
  have cond: "cond (c p) = expires s lt p" if "p \<in> set (domains s)" for p
  proof -
    have "cond (c p) = (powered (powerState s) p \<and> PDType_val (pd_id p) AND NOT (nextPowerState s lt) \<noteq> 0)"
      by (simp add: cond_def powered_def idc)
    also have "\<dots> = (powered (powerState s) p \<and> \<not> powered (nextPowerState s lt) p)"
      using not_next_iff[of "powerState s" p "nextPowerState s lt"] by auto
    also have "\<dots> = expires s lt p"
      using powered_next[OF d that, of lt] expires_powered[of s lt p] by auto
    finally show ?thesis .
  qed
  have hc: "h (c p) = arbitrated s lt p" if "p \<in> set (domains s)" for p
  proof (cases "expires s lt p")
    case True
    then have "PDType_val (pd_id p) AND powerState s AND NOT (heldDomains (subscribers s)) \<noteq> 0"
      by (simp add: expires_def)
    then have "c p = p\<lparr>countdownTimer := 0\<rparr>"
      using expires_CheckTimeout[OF True] by (simp add: c_def)
    with True cond[OF that] show ?thesis
      by (simp add: h_def arbitrated_def)
  next
    case False
    with cond[OF that] show ?thesis by (simp add: h_def arbitrated_def c_def)
  qed
  from Loop_off_domains[OF dc off[unfolded cd]]
  have r: "pds' = map h (map c (domains s))"
    and t: "tr' = tr @ map (\<lambda>q. Call_SetPower (pd_id q) False) (filter cond (map c (domains s)))"
    unfolding h_def cond_def by simp_all
  have "map (\<lambda>p. h (c p)) (domains s) = map (arbitrated s lt) (domains s)"
    by (rule map_cong[OF refl]) (rule hc)
  then have "map h (map c (domains s)) = map (arbitrated s lt) (domains s)"
    by (simp add: comp_def)
  with r show "pds' = map (arbitrated s lt) (domains s)" by simp
  have "filter cond (map c (domains s)) = map c (filter (\<lambda>p. cond (c p)) (domains s))"
    by (simp add: filter_map comp_def)
  also have "filter (\<lambda>p. cond (c p)) (domains s) = filter (expires s lt) (domains s)"
    using cond by (intro filter_cong) auto
  finally have "map (\<lambda>q. Call_SetPower (pd_id q) False) (filter cond (map c (domains s))) =
        map (\<lambda>pd. Call_SetPower (pd_id pd) False) (filter (expires s lt) (domains s))"
    by (simp add: idc comp_def)
  with t show "tr' = tr @ map (\<lambda>pd. Call_SetPower (pd_id pd) False) (filter (expires s lt) (domains s))"
    by simp
qed

lemma Loop_closed:
  assumes d: "distinct (map pd_id (domains s))" and ne: "domains s \<noteq> []"
    and lt: "timeNow - lastLoopTime s < PWRMAN_MINTIMEOUT"
  shows "Loop s timeNow irq =
     (if nextPowerState s (timeNow - lastLoopTime s) \<noteq> powerState s \<and>
         nextPowerState s (timeNow - lastLoopTime s) = 0
      then snd (Activate (CPU_DeepSleep (arbitration s timeNow) irq) PWRMAN_STARTON)
      else arbitration s timeNow)"
proof (cases "nextPowerState s (timeNow - lastLoopTime s) = powerState s")
  case True
  let ?lt = "timeNow - lastLoopTime s"
  have noexp: "\<not> expires s ?lt p" if "p \<in> set (domains s)" for p
    using powered_next[OF d that, of ?lt] expires_powered[of s ?lt p] True by auto
  then have f: "filter (expires s ?lt) (domains s) = []" by (auto simp: filter_empty_conv)
  have "map (arbitrated s ?lt) (domains s) = checked_domains s ?lt"
    unfolding checked_domains_eq using noexp by (intro map_cong) (auto simp: arbitrated_def)
  with True f show ?thesis
    by (simp add: Loop_no_transition[OF ne lt True] arbitration_def)
next
  case False
  let ?lt = "timeNow - lastLoopTime s"
  let ?nxt = "nextPowerState s ?lt"
  obtain pds' st' tr' where
    off: "for_domains (Loop_off_body ?nxt) (checked_domains s ?lt)
            (powerState s, Loop_callbacks (powerState s) ?nxt (subscribers s) (trace s))
          = (pds', st', tr')"
    by (metis prod_cases3)
  note t = Loop_transition[OF ne lt False off]
  note a = Loop_off_arbitrated[OF d off]
  have "s\<lparr>lastLoopTime := timeNow, domains := pds', powerState := st', trace := tr'\<rparr> =
        arbitration s timeNow"
    by (simp add: arbitration_def a t(1) Loop_callbacks_eq)
  with t False show ?thesis by auto
qed

lemma CheckTimeout_armed:
  "\<not> snd (CheckTimeout p lt) \<Longrightarrow>
   (countdownTimer (fst (CheckTimeout p lt)) \<noteq> 0) = (countdownTimer p \<noteq> 0)"
  by (auto simp: CheckTimeout_def split: if_splits)

lemma arbitrated_steps:
  "local_steps pds st (map (arbitrated s lt) pds)
     (st AND NOT (expired_ids (powerState s) (NOT (heldDomains (subscribers s))) lt pds))"
proof (induction pds arbitrary: st)
  case Nil
  show ?case by (simp add: local_steps.Nil)
next
  case (Cons p pds)
  show ?case
  proof (cases "expires s lt p")
    case True
    have "local_step p st (arbitrated s lt p) (st AND NOT (PDType_val (pd_id p)))"
      using True by (intro local_step.turn_off) (simp_all add: arbitrated_def)
    with Cons[of "st AND NOT (PDType_val (pd_id p))"] True show ?thesis
      by (auto simp: expires_def andnot_andnot intro: local_steps.Cons)
  next
    case False
    have "local_step p st (arbitrated s lt p) st"
    proof (cases "PDType_val (pd_id p) AND powerState s AND NOT (heldDomains (subscribers s)) \<noteq> 0")
      case True
      with False have "\<not> snd (CheckTimeout p lt)" by (simp add: expires_def)
      from CheckTimeout_armed[OF this] True False show ?thesis
        by (intro local_step.retime) (simp_all add: arbitrated_def)
    next
      case n: False
      with False show ?thesis by (simp add: arbitrated_def local_step.keep)
    qed
    with Cons[of st] False show ?thesis
      by (auto simp: expires_def intro: local_steps.Cons)
  qed
qed

lemma arbitration_inv:
  assumes "pm_inv s"
  shows "pm_inv (arbitration s timeNow)"
proof (rule local_steps_inv[OF assms])
  show "local_steps (domains s) (powerState s)
          (map (arbitrated s (timeNow - lastLoopTime s)) (domains s))
          (nextPowerState s (timeNow - lastLoopTime s))"
    unfolding nextPowerState_eq by (rule arbitrated_steps)
  show "domains (arbitration s timeNow) = map (arbitrated s (timeNow - lastLoopTime s)) (domains s)"
    and "powerState (arbitration s timeNow) = nextPowerState s (timeNow - lastLoopTime s)"
    by (simp_all add: arbitration_def)
qed

lemma Loop_inv: "pm_inv s \<Longrightarrow> pm_inv (Loop s timeNow irq)"
proof -
  assume inv: "pm_inv s"
  then have d: "distinct (map pd_id (domains s))" by (simp add: pm_inv_def)
  show ?thesis
  proof (cases "domains s \<noteq> [] \<and> timeNow - lastLoopTime s < PWRMAN_MINTIMEOUT")
    case False
    then have "domains (Loop s timeNow irq) = domains s \<and> powerState (Loop s timeNow irq) = powerState s"
      by (auto simp: Loop_def Let_def not_less)
    with inv show ?thesis by (metis pm_inv_cong)
  next
    case True
    have "pm_inv (snd (Activate (CPU_DeepSleep (arbitration s timeNow) irq) PWRMAN_STARTON))"
      using arbitration_inv[OF inv, of timeNow] by (intro Activate_inv) (simp add: CPU_DeepSleep_inv)
    with True Loop_closed[OF d, of timeNow irq] arbitration_inv[OF inv, of timeNow]
    show ?thesis by simp
  qed
qed


section \<open>C1: the power state and the actuators\<close>

lemma do_call_inv: "do_call diag s c = Some s' \<Longrightarrow> pm_inv s \<Longrightarrow> pm_inv s'"
proof (cases c)
  case Ev_Setup
  then show "do_call diag s c = Some s' \<Longrightarrow> pm_inv s \<Longrightarrow> pm_inv s'"
    by (auto simp: Setup_def intro: Activate_inv)
next
  case (Ev_Loop t irq)
  then show "do_call diag s c = Some s' \<Longrightarrow> pm_inv s \<Longrightarrow> pm_inv s'"
    by (auto intro: Loop_inv)
next
  case (Ev_Activate m)
  then show "do_call diag s c = Some s' \<Longrightarrow> pm_inv s \<Longrightarrow> pm_inv s'"
    by (auto intro: Activate_inv)
next
  case (Ev_RequestPower ps tmo)
  then show "do_call diag s c = Some s' \<Longrightarrow> pm_inv s \<Longrightarrow> pm_inv s'"
    by (auto split: option.splits dest: RequestPower_inv)
next
  case (Ev_Parse cmd arg saberOn irq)
  then show "do_call diag s c = Some s' \<Longrightarrow> pm_inv s \<Longrightarrow> pm_inv s'"
    by (auto split: option.splits dest: Parse_inv)
next
  case (Ev_Hold f)
  assume a: "do_call diag s c = Some s'" and inv: "pm_inv s"
  from a Ev_Hold have "domains s' = domains s" "powerState s' = powerState s" by auto
  with inv show "pm_inv s'" by (metis pm_inv_cong)
qed

lemma run_inv: "run diag s cs = Some s' \<Longrightarrow> pm_inv s \<Longrightarrow> pm_inv s'"
proof (induction cs arbitrary: s)
  case Nil
  then show ?case by simp
next
  case (Cons c cs)
  from Cons.prems(1) obtain s1 where c: "do_call diag s c = Some s1" and r: "run diag s1 cs = Some s'"
    by (auto split: option.splits)
  from do_call_inv[OF c Cons.prems(2)] Cons.IH[OF r] show ?case by blast
qed

lemma initial_inv:
  assumes "distinct (map pd_id pds)" "pwr4_none \<notin> set (map pd_id pds)"
  shows "pm_inv (fold PowerSubscriber_ctor pss (fold PowerDomain_ctor pds PowerManager_ctor))"
proof -
  let ?s0 = "fold PowerDomain_ctor pds PowerManager_ctor"
  let ?s = "fold PowerSubscriber_ctor pss ?s0"
  have sub_d: "domains (fold PowerSubscriber_ctor qs t) = domains t" for qs t
    by (induction qs arbitrary: t) (simp_all add: PowerSubscriber_ctor_def)
  have sub_p: "powerState (fold PowerSubscriber_ctor qs t) = powerState t" for qs t
    by (induction qs arbitrary: t) (simp_all add: PowerSubscriber_ctor_def)
  have dom_p: "powerState (fold PowerDomain_ctor qs t) = powerState t" for qs t
    by (induction qs arbitrary: t) (simp_all add: PowerDomain_ctor_def)
  have d: "domains ?s = rev (map (\<lambda>pd. pd\<lparr>countdownTimer := 0, actuator := None\<rparr>) pds)"
    by (simp add: sub_d fold_PowerDomain_ctor PowerManager_ctor_def)
  have p: "powerState ?s = 0"
    by (simp add: sub_p dom_p PowerManager_ctor_def)
  have ids: "map pd_id (domains ?s) = rev (map pd_id pds)"
    unfolding d by (simp add: rev_map comp_def)
  show ?thesis
    unfolding pm_inv_def ids p using assms
    by (auto simp: d dom_ok_def powered_def)
qed


lemma run_test:
  "\<exists>s. run True powerman_test
     [Ev_Setup, Ev_RequestPower testSubscriber1 (Some [20]), Ev_Loop 10 IRQ_BTN,
      Ev_Parse ''pwr-dom-off'' ''CPU'' False IRQ_BTN] = Some s"
  by (simp add: Setup_def Parse_def RequestPower_def powerman_test_eq Loop_eval_defs example_defs)

text \<open>
  C1. Let the domains be registered with distinct identifiers, none of them
  \<^verbatim>\<open>pwr4_none\<close>. Start from the state the constructors leave (power state 0, no
  \<^verbatim>\<open>SetPower\<close> issued) and run any sequence of calls of \<^verbatim>\<open>Setup\<close>, \<^verbatim>\<open>Loop\<close>,
  \<^verbatim>\<open>Activate\<close>, \<^verbatim>\<open>RequestPower\<close> (of any subscriber) and \<^verbatim>\<open>Parse\<close> (any command),
  with the subscribers changing their hold in between. In the state reached, the bit of
  every registered domain is set in \<^verbatim>\<open>powerState\<close> if and only if the last \<^verbatim>\<open>SetPower\<close>
  issued on that domain had argument true.
\<close>

theorem power_state_tracks_actuators:
  assumes "distinct (map pd_id pds)" and "pwr4_none \<notin> set (map pd_id pds)"
    and "run diag (fold PowerSubscriber_ctor pss (fold PowerDomain_ctor pds PowerManager_ctor)) cs
           = Some s"
  shows "actuator_inv s"
proof -
  from run_inv[OF assms(3) initial_inv[OF assms(1,2)]] show ?thesis
    by (simp add: pm_inv_def actuator_inv_def dom_ok_def)
qed

theorem power_state_tracks_actuators_witness:
  "distinct (map pd_id [pwrdom_pixel, pwrdom_amp, pwrdom_boost, pwrdom_sd, pwrdom_cpu]) \<and>
   pwr4_none \<notin> set (map pd_id [pwrdom_pixel, pwrdom_amp, pwrdom_boost, pwrdom_sd, pwrdom_cpu]) \<and>
   (\<exists>s. run True
          (fold PowerSubscriber_ctor [testSubscriber1, testSubscriber2]
             (fold PowerDomain_ctor [pwrdom_pixel, pwrdom_amp, pwrdom_boost, pwrdom_sd, pwrdom_cpu]
                PowerManager_ctor))
          [Ev_Setup, Ev_RequestPower testSubscriber1 (Some [20]), Ev_Loop 10 IRQ_BTN,
           Ev_Parse ''pwr-dom-off'' ''CPU'' False IRQ_BTN] = Some s \<and>
        actuator_inv s)"
proof -
  have h1: "distinct (map pd_id [pwrdom_pixel, pwrdom_amp, pwrdom_boost, pwrdom_sd, pwrdom_cpu])"
    and h2: "pwr4_none \<notin> set (map pd_id [pwrdom_pixel, pwrdom_amp, pwrdom_boost, pwrdom_sd, pwrdom_cpu])"
    by (simp_all add: example_defs)
  from run_test obtain s where
    r: "run True
          (fold PowerSubscriber_ctor [testSubscriber1, testSubscriber2]
             (fold PowerDomain_ctor [pwrdom_pixel, pwrdom_amp, pwrdom_boost, pwrdom_sd, pwrdom_cpu]
                PowerManager_ctor))
          [Ev_Setup, Ev_RequestPower testSubscriber1 (Some [20]), Ev_Loop 10 IRQ_BTN,
           Ev_Parse ''pwr-dom-off'' ''CPU'' False IRQ_BTN] = Some s"
    unfolding powerman_test_def powerman_static_def by blast
  from power_state_tracks_actuators [OF h1 h2 r] h1 h2 r show ?thesis by blast
qed


section \<open>The deep sleep command in closed form\<close>

lemma deepsleep_off_eq:
  "distinct (map pd_id pds) \<Longrightarrow>
   for_domains deepsleep_off_body pds (st, tr) = (pds', st', tr') \<Longrightarrow>
   pds' = map (\<lambda>pd. if powered st pd then pd\<lparr>actuator := Some False, countdownTimer := 0\<rparr> else pd) pds \<and>
   st' = st AND NOT (domain_ids pds) \<and>
   tr' = tr @ map (\<lambda>pd. Call_SetPower (pd_id pd) False) (filter (powered st) pds)"
proof (induction pds arbitrary: st tr pds' st' tr')
  case Nil
  then show ?case by simp
next
  case (Cons p pds)
  have d: "distinct (map pd_id pds)" using Cons.prems by simp
  have tail: "\<And>q. q \<in> set pds \<Longrightarrow> powered (st AND NOT (PDType_val (pd_id p))) q = powered st q"
    using Cons.prems(1) by (intro powered_andnot distinct_ids_tail)
  show ?case
  proof (cases "powered st p")
    case True
    have m: "map (\<lambda>pd. if powered (st AND NOT (PDType_val (pd_id p))) pd
                        then pd\<lparr>actuator := Some False, countdownTimer := 0\<rparr> else pd) pds =
             map (\<lambda>pd. if powered st pd then pd\<lparr>actuator := Some False, countdownTimer := 0\<rparr> else pd) pds"
      using tail by (intro map_cong) auto
    have fl: "filter (powered (st AND NOT (PDType_val (pd_id p)))) pds = filter (powered st) pds"
      using tail by (intro filter_cong) auto
    from True Cons.prems(2) obtain qs where
      r: "for_domains deepsleep_off_body pds
            (st AND NOT (PDType_val (pd_id p)), tr @ [Call_SetPower (pd_id p) False]) = (qs, st', tr')"
      and p: "pds' = p\<lparr>actuator := Some False, countdownTimer := 0\<rparr> # qs"
      by (auto simp: deepsleep_off_body_eq powered_def split: prod.splits)
    from Cons.IH[OF d r] True p show ?thesis by (simp add: m fl andnot_andnot)
  next
    case False
    then have "PDType_val (pd_id p) AND st = 0" by (simp add: powered_def)
    then have e: "st AND NOT (PDType_val (pd_id p) OR domain_ids pds) = st AND NOT (domain_ids pds)"
      using and_zero_bits[of "PDType_val (pd_id p)" st]
      by (intro bit_eqI) (auto simp: bit_and_iff bit_or_iff bit_not_iff)
    from False Cons.prems(2) obtain qs where
      r: "for_domains deepsleep_off_body pds (st, tr) = (qs, st', tr')" and p: "pds' = p # qs"
      by (auto simp: deepsleep_off_body_eq powered_def split: prod.splits)
    from Cons.IH[OF d r] False p e show ?thesis by simp
  qed
qed

lemma foldl_PwrOff:
  "foldl (\<lambda>tr ps. PwrOff_Callback ps tr) tr pss = tr @ map (\<lambda>ps. Call_PwrOff (ps_name ps)) pss"
  by (induction pss arbitrary: tr) (simp_all add: PwrOff_Callback_def)

lemma Parse_deepsleep:
  "Parse diag s ''deepsleep'' arg saberOn irq =
     (if saberOn then Some (True, s)
      else if domains s = [] then Some (True, s)
      else case for_domains deepsleep_off_body (domains s) (powerState s, trace s) of
        (pds, st, tr) \<Rightarrow>
          Some (True, snd (Activate (CPU_DeepSleep
              (s\<lparr>domains := pds, powerState := st,
                 trace := foldl (\<lambda>tr ps. PwrOff_Callback ps tr) tr (subscribers s)\<rparr>) irq)
            PWRMAN_STARTON)))"
  by (simp add: Parse_def Let_def)


section \<open>C8: the sleep transition\<close>

lemma sleep_entries_append [simp]:
  "sleep_entries (xs @ ys) = sleep_entries xs + sleep_entries ys"
  by (simp add: sleep_entries_def)

lemma sleep_entries_none:
  "\<forall>e\<in>set evs. e \<noteq> Enter_DeepSleep \<Longrightarrow> sleep_entries evs = 0"
  by (auto simp: sleep_entries_def count_list_0_iff)

lemma sleep_entries_simps [simp]:
  "sleep_entries [] = 0"
  "sleep_entries (Enter_DeepSleep # tr) = Suc (sleep_entries tr)"
  "sleep_entries (Wait_For_Interrupt w # tr) = sleep_entries tr"
  "sleep_entries (Call_SetPower i b # tr) = sleep_entries tr"
  "sleep_entries (Call_PwrOn n # tr) = sleep_entries tr"
  "sleep_entries (Call_PwrOff n # tr) = sleep_entries tr"
  by (simp_all add: sleep_entries_def)

lemma sleep_entries_map [simp]:
  "sleep_entries (map (\<lambda>x. Call_SetPower (f x) b) xs) = 0"
  "sleep_entries (map (\<lambda>x. Call_PwrOn (g x)) xs) = 0"
  "sleep_entries (map (\<lambda>x. Call_PwrOff (g x)) xs) = 0"
  by (induction xs) simp_all

lemma Activate_sleeps [simp]:
  "sleep_entries (trace (snd (Activate s m))) = sleep_entries (trace s)"
proof -
  from Activate_trace[of s m] obtain evs where
    e: "trace (snd (Activate s m)) = trace s @ evs" "\<forall>e\<in>set evs. is_power_on e \<or> is_on_callback e"
    by blast
  from e(2) have "\<forall>e\<in>set evs. e \<noteq> Enter_DeepSleep" by auto
  with e(1) show ?thesis by (simp add: sleep_entries_none)
qed

lemma arbitration_sleeps [simp]:
  "sleep_entries (trace (arbitration s t)) = sleep_entries (trace s)"
  by (simp add: arbitration_def)

lemma RequestPower_domains_sleeps:
  "RequestPower_domains sub tmo pds st tr r = Some (pds', st', tr', r') \<Longrightarrow>
   sleep_entries tr' = sleep_entries tr"
proof (induction pds arbitrary: tmo st tr r pds' st' tr' r')
  case Nil
  then show ?case by simp
next
  case (Cons p pds)
  from Cons.prems obtain tmo1 st1 tr1 r1 qs where
    r: "RequestPower_domains sub tmo1 pds st1 tr1 r1 = Some (qs, st', tr', r')"
    and t: "tr1 = tr \<or> tr1 = tr @ [Call_SetPower (pd_id p) True]"
    by (auto simp: SetPower_def split: if_splits option.splits list.splits)
  from Cons.IH[OF r] t show ?case by auto
qed

lemma RequestPower_sleeps:
  "RequestPower s ps tmo = Some (r, s') \<Longrightarrow> sleep_entries (trace s') = sleep_entries (trace s)"
  by (auto simp: RequestPower_def PwrOn_Callback_def split: if_splits option.splits
           dest: RequestPower_domains_sleeps)

lemma dom_request_loop_sleeps:
  "dom_request_loop token rest pds st tr = Some (pds', st', tr') \<Longrightarrow>
   sleep_entries tr' = sleep_entries tr"
proof (induction pds arbitrary: pds' st' tr')
  case Nil
  then show ?case by simp
next
  case (Cons p pds)
  show ?case
  proof (cases "token = pd_name p")
    case True
    with Cons.prems have "tr' = tr \<or> tr' = tr @ [Call_SetPower (pd_id p) True]"
      by (auto simp: Let_def SetPower_def split: option.splits if_splits)
    then show ?thesis by auto
  next
    case False
    with Cons.prems obtain qs where "dom_request_loop token rest pds st tr = Some (qs, st', tr')"
      by (auto split: option.splits)
    then show ?thesis by (rule Cons.IH)
  qed
qed

lemma dom_off_loop_sleeps:
  "dom_off_loop arg pds st tr = (pds', st', tr') \<Longrightarrow> sleep_entries tr' = sleep_entries tr"
proof (induction pds arbitrary: pds' st' tr')
  case Nil
  then show ?case by simp
next
  case (Cons p pds)
  show ?case
  proof (cases "arg = pd_name p")
    case True
    with Cons.prems have "tr' = tr \<or> tr' = tr @ [Call_SetPower (pd_id p) False]"
      by (auto simp: SetPower_def split: if_splits)
    then show ?thesis by auto
  next
    case False
    with Cons.prems obtain qs where "dom_off_loop arg pds st tr = (qs, st', tr')"
      by (auto split: prod.splits)
    then show ?thesis by (rule Cons.IH)
  qed
qed

lemma sub_request_loop_sleeps:
  "sub_request_loop arg pss s = Some s' \<Longrightarrow> sleep_entries (trace s') = sleep_entries (trace s)"
  by (induction pss) (auto split: if_splits option.splits dest: RequestPower_sleeps)



lemma no_holds_zero:
  "\<forall>ps\<in>set subs. \<not> HoldPower ps \<Longrightarrow> heldDomains subs = 0"
  by (intro bit_eqI) (simp add: heldDomains_bit)

lemma domain_ids_bit:
  "bit (domain_ids pds) n \<Longrightarrow> \<exists>pd\<in>set pds. bit (PDType_val (pd_id pd)) n"
  by (induction pds) (auto simp: bit_or_iff)

lemma all_off_zero:
  assumes "pm_inv s" "\<forall>pd\<in>set (domains s). \<not> powered (powerState s) pd"
  shows "powerState s = 0"
proof (rule bit_eqI)
  fix n
  from assms(1) have "powerState s AND NOT (domain_ids (domains s)) = 0" by (simp add: pm_inv_def)
  then have sub: "bit (powerState s) n \<Longrightarrow> bit (domain_ids (domains s)) n"
    by (simp add: andnot_zero_iff)
  have "\<not> bit (powerState s) n"
  proof
    assume b: "bit (powerState s) n"
    from domain_ids_bit[OF sub[OF b]] obtain pd where
      pd: "pd \<in> set (domains s)" "bit (PDType_val (pd_id pd)) n" by blast
    with b have "bit (PDType_val (pd_id pd) AND powerState s) n" by (simp add: bit_and_iff)
    then have "PDType_val (pd_id pd) AND powerState s \<noteq> 0" by auto
    with assms(2) pd(1) show False by (simp add: powered_def)
  qed
  then show "bit (powerState s) n = bit (0 :: PDType_base) n" by simp
qed

lemma expires_idle:
  assumes "pm_inv s" "\<forall>ps\<in>set (subscribers s). \<not> HoldPower ps" "p \<in> set (domains s)"
  shows "expires s d p = (countdownTimer p \<noteq> 0 \<and> countdownTimer p \<le> d)"
proof -
  from assms(1,3) have ok: "dom_ok (powerState s) p" by (simp add: pm_inv_def)
  have "expires s d p = (powered (powerState s) p \<and> snd (CheckTimeout p d))"
    by (simp add: expires_def no_holds_zero[OF assms(2)] powered_def)
  with ok show ?thesis by (auto simp: dom_ok_def CheckTimeout_def)
qed

lemma arbitrated_idle:
  assumes "pm_inv s" "\<forall>ps\<in>set (subscribers s). \<not> HoldPower ps" "p \<in> set (domains s)"
  shows "countdownTimer (arbitrated s d p) = (if countdownTimer p \<le> d then 0 else countdownTimer p - d)"
proof -
  from assms(1,3) have ok: "dom_ok (powerState s) p" by (simp add: pm_inv_def)
  have c: "(PDType_val (pd_id p) AND powerState s AND NOT (heldDomains (subscribers s)) \<noteq> 0)
           = powered (powerState s) p"
    by (simp add: no_holds_zero[OF assms(2)] powered_def)
  show ?thesis
    using ok expires_idle[OF assms, of d]
    by (auto simp: arbitrated_def c dom_ok_def CheckTimeout_def)
qed

lemma arbitrated_idle_unat:
  assumes "pm_inv s" "\<forall>ps\<in>set (subscribers s). \<not> HoldPower ps" "p \<in> set (domains s)"
  shows "unat (countdownTimer (arbitrated s d p)) = unat (countdownTimer p) - unat d"
  unfolding arbitrated_idle[OF assms]
  by (auto simp: word_le_nat_alt unat_sub)

lemma arbitrated_id [simp]: "pd_id (arbitrated s d p) = pd_id p"
  by (simp add: arbitrated_def)

lemma arbitration_fields [simp]:
  "subscribers (arbitration s t) = subscribers s"
  "domains (arbitration s t) = map (arbitrated s (t - lastLoopTime s)) (domains s)"
  "powerState (arbitration s t) = nextPowerState s (t - lastLoopTime s)"
  "lastLoopTime (arbitration s t) = t"
  "wakeUpSource (arbitration s t) = wakeUpSource s"
  by (simp_all add: arbitration_def)

lemma tick_idle:
  assumes inv: "pm_inv s" and nh: "\<forall>ps\<in>set (subscribers s). \<not> HoldPower ps"
    and ne: "domains s \<noteq> []" and d: "d < PWRMAN_MINTIMEOUT"
  shows "tick s d irq =
     (if (\<exists>p\<in>set (domains s). countdownTimer p \<noteq> 0) \<and> (\<forall>p\<in>set (domains s). countdownTimer p \<le> d)
      then snd (Activate (CPU_DeepSleep (arbitration s (lastLoopTime s + d)) irq) PWRMAN_STARTON)
      else arbitration s (lastLoopTime s + d))"
    and "(\<exists>p\<in>set (domains s). countdownTimer p \<noteq> 0) \<and> (\<forall>p\<in>set (domains s). countdownTimer p \<le> d)
         \<Longrightarrow> powerState (arbitration s (lastLoopTime s + d)) = 0"
proof -
  let ?t = "lastLoopTime s + d"
  let ?nxt = "nextPowerState s d"
  from inv have dist: "distinct (map pd_id (domains s))"
    and ok: "\<forall>pd\<in>set (domains s). dom_ok (powerState s) pd" by (simp_all add: pm_inv_def)
  have pn: "powered ?nxt p = (countdownTimer p \<noteq> 0 \<and> \<not> countdownTimer p \<le> d)"
    if "p \<in> set (domains s)" for p
    using powered_next[OF dist that, of d] expires_idle[OF inv nh that, of d] ok that
    by (auto simp: dom_ok_def)
  have ainv: "pm_inv (arbitration s ?t)" using inv by (rule arbitration_inv)
  have z: "(?nxt \<noteq> powerState s \<and> ?nxt = 0) =
           ((\<exists>p\<in>set (domains s). countdownTimer p \<noteq> 0) \<and> (\<forall>p\<in>set (domains s). countdownTimer p \<le> d))"
  proof
    assume a: "?nxt \<noteq> powerState s \<and> ?nxt = 0"
    then have "powerState s \<noteq> 0" by auto
    with all_off_zero[OF inv] obtain p where "p \<in> set (domains s)" "powered (powerState s) p"
      by blast
    with ok have e: "\<exists>p\<in>set (domains s). countdownTimer p \<noteq> 0" by (auto simp: dom_ok_def)
    have "countdownTimer p \<le> d" if "p \<in> set (domains s)" for p
    proof -
      from a have "\<not> powered ?nxt p" by (simp add: powered_def)
      with pn[OF that] show ?thesis by auto
    qed
    with e show "(\<exists>p\<in>set (domains s). countdownTimer p \<noteq> 0) \<and> (\<forall>p\<in>set (domains s). countdownTimer p \<le> d)"
      by blast
  next
    assume a: "(\<exists>p\<in>set (domains s). countdownTimer p \<noteq> 0) \<and> (\<forall>p\<in>set (domains s). countdownTimer p \<le> d)"
    then have "\<forall>p\<in>set (domains s). \<not> powered ?nxt p" using pn by auto
    then have "\<forall>pd\<in>set (domains (arbitration s ?t)). \<not> powered (powerState (arbitration s ?t)) pd"
      by (auto simp: powered_id_cong[OF arbitrated_id])
    from all_off_zero[OF ainv this] have n0: "?nxt = 0" by simp
    from a ok have "\<exists>p\<in>set (domains s). powered (powerState s) p" by (auto simp: dom_ok_def)
    then have "powerState s \<noteq> 0" by (auto simp: powered_def)
    with n0 show "?nxt \<noteq> powerState s \<and> ?nxt = 0" by simp
  qed
  have lt: "?t - lastLoopTime s < PWRMAN_MINTIMEOUT" using d by simp
  show "tick s d irq =
     (if (\<exists>p\<in>set (domains s). countdownTimer p \<noteq> 0) \<and> (\<forall>p\<in>set (domains s). countdownTimer p \<le> d)
      then snd (Activate (CPU_DeepSleep (arbitration s (lastLoopTime s + d)) irq) PWRMAN_STARTON)
      else arbitration s (lastLoopTime s + d))"
    unfolding tick_def Loop_closed[OF dist ne lt] using z by simp
  show "(\<exists>p\<in>set (domains s). countdownTimer p \<noteq> 0) \<and> (\<forall>p\<in>set (domains s). countdownTimer p \<le> d)
         \<Longrightarrow> powerState (arbitration s (lastLoopTime s + d)) = 0"
    using z by simp
qed


lemma elapsed_simps [simp]:
  "elapsed [] = 0"
  "elapsed (d # ds) = unat d + elapsed ds"
  by (simp_all add: elapsed_def)

lemma Activate_wakeUpSource [simp]: "wakeUpSource (snd (Activate s m)) = wakeUpSource s"
  by (simp add: Activate_def split: prod.splits)


lemma ticks_idle:
  assumes "pm_inv s" "\<forall>ps\<in>set (subscribers s). \<not> HoldPower ps" "domains s \<noteq> []"
    and "ds \<noteq> []" "\<forall>d\<in>set ds. d < PWRMAN_MINTIMEOUT"
    and "\<forall>pd\<in>set (domains s). unat (countdownTimer pd) \<le> elapsed ds"
    and "\<exists>pd\<in>set (domains s). elapsed (butlast ds) < unat (countdownTimer pd)"
  shows "\<exists>s1. pm_inv s1 \<and> powerState s1 = 0 \<and>
              sleep_entries (trace s1) = sleep_entries (trace s) \<and>
              map pd_id (domains s1) = map pd_id (domains s) \<and>
              wakeUpSource s1 = wakeUpSource s \<and>
              ticks s ds irq = snd (Activate (CPU_DeepSleep s1 irq) PWRMAN_STARTON)"
  using assms
proof (induction ds arbitrary: s)
  case Nil
  then show ?case by simp
next
  case (Cons d ds)
  let ?a = "arbitration s (lastLoopTime s + d)"
  from Cons.prems(5) have d: "d < PWRMAN_MINTIMEOUT" by simp
  note t = tick_idle(1)[OF Cons.prems(1,2,3) d, where irq = irq] tick_idle(2)[OF Cons.prems(1,2,3) d]
  have ainv: "pm_inv ?a" using Cons.prems(1) by (rule arbitration_inv)
  show ?case
  proof (cases "ds = []")
    case True
    with Cons.prems(6) have le: "\<forall>p\<in>set (domains s). countdownTimer p \<le> d"
      by (simp add: word_le_nat_alt)
    from True Cons.prems(7) have ex: "\<exists>p\<in>set (domains s). countdownTimer p \<noteq> 0"
      by (auto simp: unat_gt_0)
    from t(1) le ex True
    have 1: "ticks s (d # ds) irq = snd (Activate (CPU_DeepSleep ?a irq) PWRMAN_STARTON)"
      by simp
    from t(2) le ex have 2: "powerState ?a = 0" by blast
    have 3: "sleep_entries (trace ?a) = sleep_entries (trace s)" by simp
    have 4: "map pd_id (domains ?a) = map pd_id (domains s)" by (simp add: comp_def)
    have 5: "wakeUpSource ?a = wakeUpSource s" by simp
    show ?thesis
      by (rule exI[of _ ?a]) (intro conjI ainv 1 2 3 4 5)
  next
    case False
    from False Cons.prems(7) obtain p where p: "p \<in> set (domains s)"
      "unat d + elapsed (butlast ds) < unat (countdownTimer p)" by auto
    then have "\<not> countdownTimer p \<le> d" by (simp add: word_le_nat_alt)
    with p(1) t(1) have tk: "tick s d irq = ?a" by auto
    have nh: "\<forall>ps\<in>set (subscribers ?a). \<not> HoldPower ps" using Cons.prems(2) by simp
    have ne: "domains ?a \<noteq> []" using Cons.prems(3) by simp
    have ds: "\<forall>d\<in>set ds. d < PWRMAN_MINTIMEOUT" using Cons.prems(5) by simp
    have up: "\<forall>pd\<in>set (domains ?a). unat (countdownTimer pd) \<le> elapsed ds"
    proof
      fix pd assume "pd \<in> set (domains ?a)"
      then obtain q where q: "q \<in> set (domains s)" "pd = arbitrated s d q" by auto
      from Cons.prems(6) q(1) have "unat (countdownTimer q) \<le> unat d + elapsed ds" by simp
      with arbitrated_idle_unat[OF Cons.prems(1,2) q(1), of d] q(2)
      show "unat (countdownTimer pd) \<le> elapsed ds" by simp
    qed
    have lo: "\<exists>pd\<in>set (domains ?a). elapsed (butlast ds) < unat (countdownTimer pd)"
    proof (rule bexI[of _ "arbitrated s d p"])
      from arbitrated_idle_unat[OF Cons.prems(1,2) p(1), of d] p(2)
      show "elapsed (butlast ds) < unat (countdownTimer (arbitrated s d p))" by simp
      from p(1) show "arbitrated s d p \<in> set (domains ?a)" by simp
    qed
    from Cons.IH[OF ainv nh ne False ds up lo] obtain s1 where
      s1: "pm_inv s1" "powerState s1 = 0" "sleep_entries (trace s1) = sleep_entries (trace ?a)"
        "map pd_id (domains s1) = map pd_id (domains ?a)"
        "ticks ?a ds irq = snd (Activate (CPU_DeepSleep s1 irq) PWRMAN_STARTON)"
        "wakeUpSource s1 = wakeUpSource ?a"
      by blast
    have 1: "ticks s (d # ds) irq = snd (Activate (CPU_DeepSleep s1 irq) PWRMAN_STARTON)"
      using s1(5) tk by simp
    have 3: "sleep_entries (trace s1) = sleep_entries (trace s)" using s1(3) by simp
    have 4: "map pd_id (domains s1) = map pd_id (domains s)" using s1(4) by (simp add: comp_def)
    have 5: "wakeUpSource s1 = wakeUpSource s" using s1(6) by simp
    show ?thesis
      by (rule exI[of _ s1]) (intro conjI s1(1,2) 1 3 4 5)
  qed
qed

lemma wake_state:
  assumes "pm_inv s1" "powerState s1 = 0"
  shows "powerState (snd (Activate (CPU_DeepSleep s1 irq) PWRMAN_STARTON))
           = PWRMAN_STARTON AND domain_ids (domains s1)"
    and "sleep_entries (trace (snd (Activate (CPU_DeepSleep s1 irq) PWRMAN_STARTON)))
           = Suc (sleep_entries (trace s1))"
    and "wakeUpSource (snd (Activate (CPU_DeepSleep s1 irq) PWRMAN_STARTON))
           = (case irq of IRQ_BTN \<Rightarrow> wakeUp_button | IRQ_SER \<Rightarrow> wakeUp_serial)"
proof -
  from assms(1) have "distinct (map pd_id (domains (CPU_DeepSleep s1 irq)))"
    by (simp add: pm_inv_def)
  from Activate_eq[OF this, of PWRMAN_STARTON] assms(2)
  show "powerState (snd (Activate (CPU_DeepSleep s1 irq) PWRMAN_STARTON))
           = PWRMAN_STARTON AND domain_ids (domains s1)"
    by simp
  show "sleep_entries (trace (snd (Activate (CPU_DeepSleep s1 irq) PWRMAN_STARTON)))
           = Suc (sleep_entries (trace s1))"
    by simp
  show "wakeUpSource (snd (Activate (CPU_DeepSleep s1 irq) PWRMAN_STARTON))
           = (case irq of IRQ_BTN \<Rightarrow> wakeUp_button | IRQ_SER \<Rightarrow> wakeUp_serial)"
    by simp
qed

lemma wake_trace:
  "\<exists>evs. trace (snd (Activate (CPU_DeepSleep s1 irq) m)) =
            trace s1 @ [Enter_DeepSleep, Wait_For_Interrupt wakeUp_none] @ evs \<and>
         (\<forall>e\<in>set evs. is_power_on e \<or> is_on_callback e)"
  using Activate_trace[of "CPU_DeepSleep s1 irq" m] by simp

lemma startup_registered:
  assumes "pwr4_CPU \<in> pd_id ` set pds"
  shows "PWRMAN_STARTON AND domain_ids pds = PWRMAN_STARTON"
proof -
  from assms obtain pd where "pd \<in> set pds" "pd_id pd = pwr4_CPU" by auto
  from domain_ids_member[OF this(1)] this(2) show ?thesis by (simp add: PWRMAN_STARTON_def)
qed


lemma Loop_sleep:
  assumes "pm_inv s"
  shows "sleep_entries (trace (Loop s timeNow irq)) = sleep_entries (trace s) \<or>
         (powerState (arbitration s timeNow) = 0 \<and>
          wakeUpSource (arbitration s timeNow) = wakeUpSource s \<and>
          sleep_entries (trace (arbitration s timeNow)) = sleep_entries (trace s) \<and>
          Loop s timeNow irq = snd (Activate (CPU_DeepSleep (arbitration s timeNow) irq) PWRMAN_STARTON))"
proof (cases "domains s \<noteq> [] \<and> timeNow - lastLoopTime s < PWRMAN_MINTIMEOUT")
  case False
  then have "trace (Loop s timeNow irq) = trace s"
    by (auto simp: Loop_def Let_def not_less)
  then show ?thesis by simp
next
  case True
  from assms have d: "distinct (map pd_id (domains s))" by (simp add: pm_inv_def)
  from True have ne: "domains s \<noteq> []" and lt: "timeNow - lastLoopTime s < PWRMAN_MINTIMEOUT"
    by simp_all
  show ?thesis
    unfolding Loop_closed[OF d ne lt] by simp
qed

lemma Parse_sleep:
  assumes "Parse diag s cmd arg saberOn irq = Some (r, s')" "pm_inv s"
  shows "sleep_entries (trace s') = sleep_entries (trace s) \<or>
         (\<exists>s1. powerState s1 = 0 \<and> wakeUpSource s1 = wakeUpSource s \<and>
               sleep_entries (trace s1) = sleep_entries (trace s) \<and>
               s' = snd (Activate (CPU_DeepSleep s1 irq) PWRMAN_STARTON))"
  using assms(1)[unfolded Parse_def]
proof (cases rule: if_chain7)
  case 1
  then show ?thesis by simp
next
  case 2
  then consider (same) "s' = s"
    | (req) token rest pds st tr where
      "dom_request_loop token rest (domains s) (powerState s) (trace s) = Some (pds, st, tr)"
      "s' = s\<lparr>domains := pds, powerState := st, trace := tr\<rparr>"
    by (auto split: if_splits option.splits)
  then show ?thesis
  proof cases
    case same
    then show ?thesis by simp
  next
    case req
    from dom_request_loop_sleeps[OF req(1)] req(2) show ?thesis by simp
  qed
next
  case 3
  then consider (same) "s' = s"
    | (off) pds st tr where
      "dom_off_loop arg (domains s) (powerState s) (trace s) = (pds, st, tr)"
      "s' = s\<lparr>domains := pds, powerState := st, trace := tr\<rparr>"
    by (auto split: if_splits prod.splits)
  then show ?thesis
  proof cases
    case same
    then show ?thesis by simp
  next
    case off
    from dom_off_loop_sleeps[OF off(1)] off(2) show ?thesis by simp
  qed
next
  case 4
  then show ?thesis by simp
next
  case 5
  then consider (same) "s' = s" | (sub) "sub_request_loop arg (subscribers s) s = Some s'"
    by (auto split: if_splits option.splits)
  then show ?thesis
  proof cases
    case same
    then show ?thesis by simp
  next
    case sub
    from sub_request_loop_sleeps[OF sub] show ?thesis by simp
  qed
next
  case 6
  show ?thesis
  proof (cases "saberOn \<or> domains s = []")
    case True
    with 6 have "s' = s" by (auto split: if_splits)
    then show ?thesis by simp
  next
    case False
    from assms(2) have d: "distinct (map pd_id (domains s))"
      and stray: "powerState s AND NOT (domain_ids (domains s)) = 0"
      by (simp_all add: pm_inv_def)
    obtain pds st tr where
      f: "for_domains deepsleep_off_body (domains s) (powerState s, trace s) = (pds, st, tr)"
      by (metis prod_cases3)
    define s1 where "s1 = s\<lparr>domains := pds, powerState := st,
                   trace := foldl (\<lambda>tr ps. PwrOff_Callback ps tr) tr (subscribers s)\<rparr>"
    from 6 False f have e: "s' = snd (Activate (CPU_DeepSleep s1 irq) PWRMAN_STARTON)"
      by (simp add: Let_def s1_def)
    from deepsleep_off_eq[OF d f] stray
    have st0: "st = 0"
      and tr: "tr = trace s @ map (\<lambda>pd. Call_SetPower (pd_id pd) False)
                             (filter (powered (powerState s)) (domains s))"
      by simp_all
    have 1: "powerState s1 = 0" by (simp add: s1_def st0)
    have 2: "sleep_entries (trace s1) = sleep_entries (trace s)"
      by (simp add: s1_def foldl_PwrOff tr)
    have 3: "wakeUpSource s1 = wakeUpSource s" by (simp add: s1_def)
    from 1 2 3 e show ?thesis by blast
  qed
next
  case 7
  then show ?thesis by simp
qed

lemma do_call_sleep:
  assumes "do_call diag s c = Some s'" "pm_inv s"
  shows "sleep_entries (trace s') = sleep_entries (trace s) \<or>
         (\<exists>s1 irq. powerState s1 = 0 \<and> wakeUpSource s1 = wakeUpSource s \<and>
               sleep_entries (trace s1) = sleep_entries (trace s) \<and>
               s' = snd (Activate (CPU_DeepSleep s1 irq) PWRMAN_STARTON))"
proof (cases c)
  case Ev_Setup
  with assms(1) show ?thesis by (auto simp: Setup_def)
next
  case (Ev_Loop t irq)
  with assms(1) have "s' = Loop s t irq" by simp
  with Loop_sleep[OF assms(2), of t irq] show ?thesis by metis
next
  case (Ev_Activate m)
  with assms(1) show ?thesis by auto
next
  case (Ev_RequestPower ps tmo)
  with assms(1) obtain r where "RequestPower s ps tmo = Some (r, s')"
    by (auto split: option.splits)
  from RequestPower_sleeps[OF this] show ?thesis by simp
next
  case (Ev_Parse cmd arg saberOn irq)
  with assms(1) obtain r where "Parse diag s cmd arg saberOn irq = Some (r, s')"
    by (auto split: option.splits)
  from Parse_sleep[OF this assms(2)] show ?thesis by metis
next
  case (Ev_Hold f)
  with assms(1) show ?thesis by auto
qed





lemma powerman_woken_eq:
  "powerman_woken =
      \<lparr>domains = [pwrdom_cpu\<lparr>countdownTimer := 60000, actuator := Some True\<rparr>,
                  pwrdom_sd\<lparr>countdownTimer := 1000, actuator := Some True\<rparr>,
                  pwrdom_boost\<lparr>countdownTimer := 1000, actuator := Some True\<rparr>,
                  pwrdom_amp\<lparr>countdownTimer := 50, actuator := Some True\<rparr>,
                  pwrdom_pixel\<lparr>countdownTimer := 1000, actuator := Some True\<rparr>],
       subscribers = [],
       wakeUpSource = wakeUp_serial, powerState = 31, lastLoopTime = 0,
       trace = [Enter_DeepSleep, Wait_For_Interrupt wakeUp_none,
                Call_SetPower pwr4_CPU True, Call_SetPower pwr4_SD True,
                Call_SetPower pwr4_Booster True, Call_SetPower pwr4_Amplif True,
                Call_SetPower pwr4_Pixel True]\<rparr>"
proof -
  have d: "distinct (map pd_id (domains (CPU_DeepSleep powerman_static IRQ_SER)))"
    by (simp add: example_defs)
  have e: "CPU_DeepSleep powerman_static IRQ_SER =
             powerman_static\<lparr>wakeUpSource := wakeUp_serial,
                              trace := [Enter_DeepSleep, Wait_For_Interrupt wakeUp_none]\<rparr>"
    by (simp add: CPU_DeepSleep_def CPU_DeepSleep_entry_def CPU_DeepSleep_wait_def
          pwrWakeUp_SER_def example_defs)
  show ?thesis
    unfolding powerman_woken_def
    by (subst Activate_eq[OF d])
       (simp add: e wants_on_def powered_def IsOn_def ResetTimeout_def example_defs)
qed

lemma powerman_woken_inv: "pm_inv powerman_woken"
  by (simp add: pm_inv_def dom_ok_def powered_def powerman_woken_eq example_defs)

lemma elapsed_replicate: "elapsed (replicate n d) = n * unat d"
  by (induction n) simp_all

text \<open>
  C8. Let the state be well formed. (1) Whatever call is made on the power manager
  (\<^verbatim>\<open>Setup\<close>, \<^verbatim>\<open>Loop\<close>, \<^verbatim>\<open>Activate\<close>, \<^verbatim>\<open>RequestPower\<close>, \<^verbatim>\<open>Parse\<close>, a change of holds),
  either it does not enter the sleep transition, or it enters it once, in a state \<open>s1\<close>
  whose power state is 0 and whose wake-up source is still the one from before the call.
  Whatever that wake-up source was, the processor then stops with the wake-up source
  none (the call adds to the trace the entry and the wait with wake-up source none),
  and after the wake-up the call ends with \<^verbatim>\<open>Activate(PWRMAN_STARTON)\<close>, which adds only
  power-on events. (2) Let no subscriber hold power, let the CPU domain be registered,
  and let \<^verbatim>\<open>Loop()\<close> be called at intervals below \<^verbatim>\<open>PWRMAN_MINTIMEOUT\<close> that add up to at
  least the remaining time of every domain, the last call being the first to reach the
  longest remaining time. Then the calls enter the sleep transition exactly once, in
  the same way, and when a button interrupt ends the stop period the wake-up source is
  the button and the power state is exactly \<^verbatim>\<open>PWRMAN_STARTON\<close>.
\<close>

theorem sleep_transition:
  assumes "pm_inv s"
  shows
   "(\<forall>c s'. do_call diag s c = Some s' \<longrightarrow>
       sleep_entries (trace s') = sleep_entries (trace s) \<or>
       (\<exists>s1 irq evs.
           powerState s1 = 0 \<and>
           wakeUpSource s1 = wakeUpSource s \<and>
           sleep_entries (trace s1) = sleep_entries (trace s) \<and>
           s' = snd (Activate (CPU_DeepSleep s1 irq) PWRMAN_STARTON) \<and>
           trace s' = trace s1 @ [Enter_DeepSleep, Wait_For_Interrupt wakeUp_none] @ evs \<and>
           (\<forall>e\<in>set evs. is_power_on e \<or> is_on_callback e) \<and>
           sleep_entries (trace s') = Suc (sleep_entries (trace s)))) \<and>
    ((\<forall>ps\<in>set (subscribers s). \<not> HoldPower ps) \<and>
     pwr4_CPU \<in> pd_id ` set (domains s) \<and>
     ds \<noteq> [] \<and> (\<forall>d\<in>set ds. d < PWRMAN_MINTIMEOUT) \<and>
     (\<forall>pd\<in>set (domains s). unat (countdownTimer pd) \<le> elapsed ds) \<and>
     (\<exists>pd\<in>set (domains s). elapsed (butlast ds) < unat (countdownTimer pd)) \<longrightarrow>
       (\<exists>s1 evs.
           powerState s1 = 0 \<and>
           wakeUpSource s1 = wakeUpSource s \<and>
           sleep_entries (trace s1) = sleep_entries (trace s) \<and>
           ticks s ds IRQ_BTN = snd (Activate (CPU_DeepSleep s1 IRQ_BTN) PWRMAN_STARTON) \<and>
           trace (ticks s ds IRQ_BTN) =
             trace s1 @ [Enter_DeepSleep, Wait_For_Interrupt wakeUp_none] @ evs \<and>
           (\<forall>e\<in>set evs. is_power_on e \<or> is_on_callback e)) \<and>
       sleep_entries (trace (ticks s ds IRQ_BTN)) = Suc (sleep_entries (trace s)) \<and>
       wakeUpSource (ticks s ds IRQ_BTN) = wakeUp_button \<and>
       powerState (ticks s ds IRQ_BTN) = PWRMAN_STARTON)"
proof (intro conjI allI impI)
  fix c s'
  assume c: "do_call diag s c = Some s'"
  from do_call_sleep[OF c assms] show
    "sleep_entries (trace s') = sleep_entries (trace s) \<or>
       (\<exists>s1 irq evs.
           powerState s1 = 0 \<and>
           wakeUpSource s1 = wakeUpSource s \<and>
           sleep_entries (trace s1) = sleep_entries (trace s) \<and>
           s' = snd (Activate (CPU_DeepSleep s1 irq) PWRMAN_STARTON) \<and>
           trace s' = trace s1 @ [Enter_DeepSleep, Wait_For_Interrupt wakeUp_none] @ evs \<and>
           (\<forall>e\<in>set evs. is_power_on e \<or> is_on_callback e) \<and>
           sleep_entries (trace s') = Suc (sleep_entries (trace s)))"
  proof
    assume "sleep_entries (trace s') = sleep_entries (trace s)"
    then show ?thesis by (rule disjI1)
  next
    assume "\<exists>s1 irq. powerState s1 = 0 \<and> wakeUpSource s1 = wakeUpSource s \<and>
               sleep_entries (trace s1) = sleep_entries (trace s) \<and>
               s' = snd (Activate (CPU_DeepSleep s1 irq) PWRMAN_STARTON)"
    then obtain s1 irq where s1: "powerState s1 = 0" "wakeUpSource s1 = wakeUpSource s"
      "sleep_entries (trace s1) = sleep_entries (trace s)"
      "s' = snd (Activate (CPU_DeepSleep s1 irq) PWRMAN_STARTON)" by blast
    from wake_trace[of s1 irq PWRMAN_STARTON] obtain evs where
      evs: "trace s' = trace s1 @ [Enter_DeepSleep, Wait_For_Interrupt wakeUp_none] @ evs"
        "\<forall>e\<in>set evs. is_power_on e \<or> is_on_callback e"
      unfolding s1(4) by blast
    have n: "sleep_entries (trace s') = Suc (sleep_entries (trace s))"
      unfolding s1(4) using s1(3) by simp
    show ?thesis
      by (rule disjI2, rule exI[of _ s1], rule exI[of _ irq], rule exI[of _ evs])
         (intro conjI s1 evs n)
  qed
next
  assume a: "(\<forall>ps\<in>set (subscribers s). \<not> HoldPower ps) \<and>
     pwr4_CPU \<in> pd_id ` set (domains s) \<and>
     ds \<noteq> [] \<and> (\<forall>d\<in>set ds. d < PWRMAN_MINTIMEOUT) \<and>
     (\<forall>pd\<in>set (domains s). unat (countdownTimer pd) \<le> elapsed ds) \<and>
     (\<exists>pd\<in>set (domains s). elapsed (butlast ds) < unat (countdownTimer pd))"
  then have nh: "\<forall>ps\<in>set (subscribers s). \<not> HoldPower ps"
    and cpu: "pwr4_CPU \<in> pd_id ` set (domains s)"
    and ds: "ds \<noteq> []" "\<forall>d\<in>set ds. d < PWRMAN_MINTIMEOUT"
    and up: "\<forall>pd\<in>set (domains s). unat (countdownTimer pd) \<le> elapsed ds"
    and lo: "\<exists>pd\<in>set (domains s). elapsed (butlast ds) < unat (countdownTimer pd)"
    by blast+
  from cpu have ne: "domains s \<noteq> []" by auto
  from ticks_idle[OF assms nh ne ds up lo, of IRQ_BTN] obtain s1 where
    s1: "pm_inv s1" "powerState s1 = 0" "sleep_entries (trace s1) = sleep_entries (trace s)"
      "map pd_id (domains s1) = map pd_id (domains s)"
      "wakeUpSource s1 = wakeUpSource s"
      "ticks s ds IRQ_BTN = snd (Activate (CPU_DeepSleep s1 IRQ_BTN) PWRMAN_STARTON)"
    by blast
  from wake_trace[of s1 IRQ_BTN PWRMAN_STARTON] obtain evs where
    evs: "trace (ticks s ds IRQ_BTN) =
            trace s1 @ [Enter_DeepSleep, Wait_For_Interrupt wakeUp_none] @ evs"
      "\<forall>e\<in>set evs. is_power_on e \<or> is_on_callback e"
    unfolding s1(6) by blast
  note ws = wake_state[OF s1(1,2), of IRQ_BTN]
  from cpu have "pwr4_CPU \<in> pd_id ` set (domains s1)"
    using s1(4) by (metis list.set_map)
  from startup_registered[OF this] ws(1)
  have st: "powerState (ticks s ds IRQ_BTN) = PWRMAN_STARTON" unfolding s1(6) by simp
  from ws(2) s1(3)
  have n: "sleep_entries (trace (ticks s ds IRQ_BTN)) = Suc (sleep_entries (trace s))"
    unfolding s1(6) by simp
  from ws(3) have wk: "wakeUpSource (ticks s ds IRQ_BTN) = wakeUp_button"
    unfolding s1(6) by simp
  show "\<exists>s1 evs.
           powerState s1 = 0 \<and>
           wakeUpSource s1 = wakeUpSource s \<and>
           sleep_entries (trace s1) = sleep_entries (trace s) \<and>
           ticks s ds IRQ_BTN = snd (Activate (CPU_DeepSleep s1 IRQ_BTN) PWRMAN_STARTON) \<and>
           trace (ticks s ds IRQ_BTN) =
             trace s1 @ [Enter_DeepSleep, Wait_For_Interrupt wakeUp_none] @ evs \<and>
           (\<forall>e\<in>set evs. is_power_on e \<or> is_on_callback e)"
    by (rule exI[of _ s1], rule exI[of _ evs]) (intro conjI s1(2) s1(5) s1(3) s1(6) evs)
  from n show "sleep_entries (trace (ticks s ds IRQ_BTN)) = Suc (sleep_entries (trace s))" .
  from wk show "wakeUpSource (ticks s ds IRQ_BTN) = wakeUp_button" .
  from st show "powerState (ticks s ds IRQ_BTN) = PWRMAN_STARTON" .
qed

text \<open>
  The static configuration has been woken by the serial line and has all five domains
  on. 6000 calls of \<^verbatim>\<open>Loop()\<close> 10 ms apart pass the 60 s of the CPU domain: the sleep
  transition is entered a second time, from a state whose wake-up source is still the
  serial line, the processor waits with wake-up source none, and the button wakes the
  CPU domain alone. The command \<^verbatim>\<open>deepsleep\<close> in the same state enters the sleep
  transition in the same way.
\<close>

theorem sleep_transition_witness:
  "pm_inv powerman_woken \<and>
   wakeUpSource powerman_woken = wakeUp_serial \<and>
   (\<exists>s1 evs. powerState s1 = 0 \<and>
         wakeUpSource s1 = wakeUp_serial \<and>
         ticks powerman_woken (replicate 6000 10) IRQ_BTN =
           snd (Activate (CPU_DeepSleep s1 IRQ_BTN) PWRMAN_STARTON) \<and>
         trace (ticks powerman_woken (replicate 6000 10) IRQ_BTN) =
           trace s1 @ [Enter_DeepSleep, Wait_For_Interrupt wakeUp_none] @ evs) \<and>
   sleep_entries (trace (ticks powerman_woken (replicate 6000 10) IRQ_BTN)) = 2 \<and>
   wakeUpSource (ticks powerman_woken (replicate 6000 10) IRQ_BTN) = wakeUp_button \<and>
   powerState (ticks powerman_woken (replicate 6000 10) IRQ_BTN) = 1 \<and>
   (\<exists>s' s1 irq evs.
         do_call False powerman_woken (Ev_Parse ''deepsleep'' [] False IRQ_BTN) = Some s' \<and>
         powerState s1 = 0 \<and>
         wakeUpSource s1 = wakeUp_serial \<and>
         s' = snd (Activate (CPU_DeepSleep s1 irq) PWRMAN_STARTON) \<and>
         trace s' = trace s1 @ [Enter_DeepSleep, Wait_For_Interrupt wakeUp_none] @ evs \<and>
         sleep_entries (trace s') = 2)"
proof -
  note inv = powerman_woken_inv
  note inst = sleep_transition[OF inv, where ds = "replicate 6000 10" and diag = False]
  have z: "sleep_entries (trace powerman_woken) = 1" by (simp add: powerman_woken_eq)
  have w: "wakeUpSource powerman_woken = wakeUp_serial" by (simp add: powerman_woken_eq)
  have bl: "butlast (replicate 6000 (10 :: uint32_t)) = replicate 5999 10"
    by (simp add: butlast_conv_take)
  have h: "(\<forall>ps\<in>set (subscribers powerman_woken). \<not> HoldPower ps) \<and>
     pwr4_CPU \<in> pd_id ` set (domains powerman_woken) \<and>
     replicate 6000 (10 :: uint32_t) \<noteq> [] \<and>
     (\<forall>d\<in>set (replicate 6000 (10 :: uint32_t)). d < PWRMAN_MINTIMEOUT) \<and>
     (\<forall>pd\<in>set (domains powerman_woken). unat (countdownTimer pd) \<le> elapsed (replicate 6000 10)) \<and>
     (\<exists>pd\<in>set (domains powerman_woken).
         elapsed (butlast (replicate 6000 10)) < unat (countdownTimer pd))"
    unfolding bl elapsed_replicate
    by (simp add: powerman_woken_eq example_defs)
  from inst have part1: "\<forall>c s'. do_call False powerman_woken c = Some s' \<longrightarrow>
       sleep_entries (trace s') = sleep_entries (trace powerman_woken) \<or>
       (\<exists>s1 irq evs.
           powerState s1 = 0 \<and>
           wakeUpSource s1 = wakeUpSource powerman_woken \<and>
           sleep_entries (trace s1) = sleep_entries (trace powerman_woken) \<and>
           s' = snd (Activate (CPU_DeepSleep s1 irq) PWRMAN_STARTON) \<and>
           trace s' = trace s1 @ [Enter_DeepSleep, Wait_For_Interrupt wakeUp_none] @ evs \<and>
           (\<forall>e\<in>set evs. is_power_on e \<or> is_on_callback e) \<and>
           sleep_entries (trace s') = Suc (sleep_entries (trace powerman_woken)))"
    by (rule conjunct1)
  from inst[THEN conjunct2, THEN mp, OF h]
  have b0: "\<exists>s1 evs.
           powerState s1 = 0 \<and>
           wakeUpSource s1 = wakeUpSource powerman_woken \<and>
           sleep_entries (trace s1) = sleep_entries (trace powerman_woken) \<and>
           ticks powerman_woken (replicate 6000 10) IRQ_BTN =
             snd (Activate (CPU_DeepSleep s1 IRQ_BTN) PWRMAN_STARTON) \<and>
           trace (ticks powerman_woken (replicate 6000 10) IRQ_BTN) =
             trace s1 @ [Enter_DeepSleep, Wait_For_Interrupt wakeUp_none] @ evs \<and>
           (\<forall>e\<in>set evs. is_power_on e \<or> is_on_callback e)"
    and b2: "sleep_entries (trace (ticks powerman_woken (replicate 6000 10) IRQ_BTN))
             = Suc (sleep_entries (trace powerman_woken))"
    and b3: "wakeUpSource (ticks powerman_woken (replicate 6000 10) IRQ_BTN) = wakeUp_button"
    and b4: "powerState (ticks powerman_woken (replicate 6000 10) IRQ_BTN) = PWRMAN_STARTON"
    by blast+
  from b0 w have b1: "\<exists>s1 evs. powerState s1 = 0 \<and>
         wakeUpSource s1 = wakeUp_serial \<and>
         ticks powerman_woken (replicate 6000 10) IRQ_BTN =
           snd (Activate (CPU_DeepSleep s1 IRQ_BTN) PWRMAN_STARTON) \<and>
         trace (ticks powerman_woken (replicate 6000 10) IRQ_BTN) =
           trace s1 @ [Enter_DeepSleep, Wait_For_Interrupt wakeUp_none] @ evs"
    by auto
  from b2 z have b2': "sleep_entries (trace (ticks powerman_woken (replicate 6000 10) IRQ_BTN)) = 2"
    by simp
  from b4 have b4': "powerState (ticks powerman_woken (replicate 6000 10) IRQ_BTN) = 1"
    by (simp add: PWRMAN_STARTON_def)
  obtain s' where c: "do_call False powerman_woken (Ev_Parse ''deepsleep'' [] False IRQ_BTN) = Some s'"
    and n: "sleep_entries (trace s') \<noteq> sleep_entries (trace powerman_woken)"
  proof -
    obtain pds st tr where
      f: "for_domains deepsleep_off_body (domains powerman_woken)
            (powerState powerman_woken, trace powerman_woken) = (pds, st, tr)"
      by (metis prod_cases3)
    have ne: "domains powerman_woken \<noteq> []" by (simp add: powerman_woken_eq)
    from deepsleep_off_eq[OF _ f] inv have
      "tr = trace powerman_woken @ map (\<lambda>pd. Call_SetPower (pd_id pd) False)
              (filter (powered (powerState powerman_woken)) (domains powerman_woken))"
      by (simp add: pm_inv_def)
    then have t0: "sleep_entries tr = 1" using z by simp
    let ?s1 = "powerman_woken\<lparr>domains := pds, powerState := st,
                 trace := foldl (\<lambda>tr ps. PwrOff_Callback ps tr) tr (subscribers powerman_woken)\<rparr>"
    have 1: "do_call False powerman_woken (Ev_Parse ''deepsleep'' [] False IRQ_BTN)
             = Some (snd (Activate (CPU_DeepSleep ?s1 IRQ_BTN) PWRMAN_STARTON))"
      using ne f by (simp add: Parse_deepsleep)
    have 2: "sleep_entries (trace (snd (Activate (CPU_DeepSleep ?s1 IRQ_BTN) PWRMAN_STARTON)))
             \<noteq> sleep_entries (trace powerman_woken)"
      using t0 z by (simp add: foldl_PwrOff)
    from 1 2 that show ?thesis by blast
  qed
  from part1 c n obtain s1 irq evs where
    s1: "powerState s1 = 0" "wakeUpSource s1 = wakeUpSource powerman_woken"
      "s' = snd (Activate (CPU_DeepSleep s1 irq) PWRMAN_STARTON)"
      "trace s' = trace s1 @ [Enter_DeepSleep, Wait_For_Interrupt wakeUp_none] @ evs"
      "sleep_entries (trace s') = Suc (sleep_entries (trace powerman_woken))"
    by blast
  from s1(2) w have s12: "wakeUpSource s1 = wakeUp_serial" by simp
  from s1(5) z have s15: "sleep_entries (trace s') = 2" by simp
  have b5: "\<exists>s' s1 irq evs.
         do_call False powerman_woken (Ev_Parse ''deepsleep'' [] False IRQ_BTN) = Some s' \<and>
         powerState s1 = 0 \<and>
         wakeUpSource s1 = wakeUp_serial \<and>
         s' = snd (Activate (CPU_DeepSleep s1 irq) PWRMAN_STARTON) \<and>
         trace s' = trace s1 @ [Enter_DeepSleep, Wait_For_Interrupt wakeUp_none] @ evs \<and>
         sleep_entries (trace s') = 2"
    by (rule exI[of _ s'], rule exI[of _ s1], rule exI[of _ irq], rule exI[of _ evs])
       (intro conjI c s1(1) s12 s1(3) s1(4) s15)
  from inv w b1 b2' b3 b4' b5 show ?thesis by (intro conjI)
qed


section \<open>C9: the command deepsleep\<close>








end
